theory Spec2Isabelle
  imports Complex_Main "HOL-Library.Multiset"
begin

section \<open>Python values used by the tracker core\<close>

text \<open>
  The association core of the tracker (\<^verbatim>\<open>deep_sort/linear_assignment.py\<close> and
  \<^verbatim>\<open>deep_sort/tracker.py\<close>) is embedded as HOL functions. Exceptions are
  values of a sum type, Python floats are read as real numbers (ordering and the
  addition of \<^verbatim>\<open>1e-5\<close> are exact), and list positions are natural numbers.
\<close>

datatype error = ValueError | IndexError | KeyError | CollaboratorError

definition bnd :: "error + 'a \<Rightarrow> ('a \<Rightarrow> error + 'b) \<Rightarrow> error + 'b" where
  "bnd m f = (case m of Inl e \<Rightarrow> Inl e | Inr x \<Rightarrow> f x)"

text \<open>
  An index subset is either a Python list or a one-dimensional numpy array: the
  default of \<^verbatim>\<open>min_cost_matching\<close> is \<^verbatim>\<open>np.arange(len(tracks))\<close>, the
  callers of this repository pass lists.
\<close>

datatype indices = PyList "nat list" | NdArray "nat list"

fun elems :: "indices \<Rightarrow> nat list" where
  "elems (PyList xs) = xs"
| "elems (NdArray xs) = xs"

text \<open>
  Python's truth value \<^verbatim>\<open>bool(x)\<close>: a list is true when it is not empty; a
  numpy array of one element has the truth value of that element, an array of
  several elements raises \<^verbatim>\<open>ValueError\<close> (the truth value is ambiguous), and
  an empty array is false (with a deprecation warning in the numpy releases that
  still accept it).
\<close>

fun truth :: "indices \<Rightarrow> error + bool" where
  "truth (PyList xs) = Inr (xs \<noteq> [])"
| "truth (NdArray []) = Inr False"
| "truth (NdArray [x]) = Inr (x \<noteq> 0)"
| "truth (NdArray (x # y # zs)) = Inl ValueError"

text \<open>\<^verbatim>\<open>xs[i]\<close> for a position \<open>i \<ge> 0\<close>: out of range raises \<^verbatim>\<open>IndexError\<close>.\<close>

definition item :: "'a list \<Rightarrow> nat \<Rightarrow> error + 'a" where
  "item xs i = (if i < length xs then Inr (xs ! i) else Inl IndexError)"

text \<open>A list comprehension whose element expression may raise.\<close>

fun comprehension :: "('a \<Rightarrow> error + 'b) \<Rightarrow> 'a list \<Rightarrow> error + 'b list" where
  "comprehension f [] = Inr []"
| "comprehension f (x # xs) =
     bnd (f x) (\<lambda>y. bnd (comprehension f xs) (\<lambda>ys. Inr (y # ys)))"

text \<open>A cost matrix is a two-dimensional array, kept as the list of its rows.\<close>

type_synonym matrix = "real list list"

definition entry :: "matrix \<Rightarrow> nat \<Rightarrow> nat \<Rightarrow> error + real" where
  "entry cost_matrix row col = bnd (item cost_matrix row) (\<lambda>r. item r col)"

definition rectangular :: "nat \<Rightarrow> nat \<Rightarrow> matrix \<Rightarrow> bool" where
  "rectangular R C cost_matrix \<longleftrightarrow>
     length cost_matrix = R \<and> list_all (\<lambda>r. length r = C) cost_matrix"

section \<open>Tracks and detections\<close>

datatype track_state = Tentative | Confirmed | Deleted

text \<open>
  Modelled from the spec: the class \<^verbatim>\<open>Track\<close> (\<^verbatim>\<open>deep_sort/track.py\<close>) is not
  among the sources; its fields are those of the data model of the specification,
  with the two thresholds its constructor receives.
\<close>

record track =
  mean :: "real list"
  covariance :: "real list list"
  track_id :: nat
  state :: track_state
  hits :: nat
  age :: nat
  time_since_update :: nat
  features :: "real list list"
  class_id :: nat
  n_init_of :: nat
  max_age_of :: nat

text \<open>
  Modelled from the spec: the class \<^verbatim>\<open>Detection\<close> (\<^verbatim>\<open>deep_sort/detection.py\<close>)
  is not among the sources; it exposes a box in (x, y, aspect, height) form, a
  feature vector and a class label.
\<close>

record detection =
  to_xyah :: "real list"
  feature :: "real list"
  get_class :: nat

type_synonym cost_function =
  "track list \<Rightarrow> detection list \<Rightarrow> indices \<Rightarrow> indices \<Rightarrow> error + matrix"

text \<open>
  The Assignment Solver (\<^verbatim>\<open>scipy.optimize.linear_sum_assignment\<close>) is a parameter
  \<open>linear_assignment\<close> of the functions that call it: it maps a cost matrix to the
  list of (row, column) pairs it selects.
\<close>

type_synonym assignment_solver = "matrix \<Rightarrow> (nat \<times> nat) list"

section \<open>\<^verbatim>\<open>min_cost_matching\<close>\<close>

definition INFTY_COST :: real where
  "INFTY_COST = 100000"

text \<open>\<^verbatim>\<open>cost_matrix[cost_matrix > max_distance] = max_distance + 1e-5\<close>\<close>

definition clamp :: "real \<Rightarrow> matrix \<Rightarrow> matrix" where
  "clamp max_distance cost_matrix =
     map (map (\<lambda>c. if c > max_distance then max_distance + 1 / 100000 else c)) cost_matrix"

text \<open>
  The two \<^verbatim>\<open>enumerate\<close> loops: the elements whose position is not among the
  positions the solver selected.
\<close>

definition not_selected :: "nat list \<Rightarrow> nat list \<Rightarrow> nat list" where
  "not_selected selected xs =
     map snd (filter (\<lambda>(pos, idx). pos \<notin> set selected) (enumerate 0 xs))"

text \<open>
  The loop over the solver's pairs. The matrix it reads is the clamped one: the
  clamping assignment overwrites \<^verbatim>\<open>cost_matrix\<close> in place.
\<close>

fun examine ::
  "real \<Rightarrow> matrix \<Rightarrow> nat list \<Rightarrow> nat list \<Rightarrow> (nat \<times> nat) list \<Rightarrow>
   (nat \<times> nat) list \<times> nat list \<times> nat list \<Rightarrow>
   error + ((nat \<times> nat) list \<times> nat list \<times> nat list)" where
  "examine max_distance cost_matrix ts ds [] acc = Inr acc"
| "examine max_distance cost_matrix ts ds ((row, col) # rest)
     (matches, unmatched_tracks, unmatched_detections) =
     bnd (item ts row) (\<lambda>track_idx.
     bnd (item ds col) (\<lambda>detection_idx.
     bnd (entry cost_matrix row col) (\<lambda>c.
       if c > max_distance
       then examine max_distance cost_matrix ts ds rest
              (matches, unmatched_tracks @ [track_idx], unmatched_detections @ [detection_idx])
       else examine max_distance cost_matrix ts ds rest
              (matches @ [(track_idx, detection_idx)], unmatched_tracks, unmatched_detections))))"

text \<open>
  The defaults of the index subsets: \<^verbatim>\<open>np.arange(len(xs))\<close> in
  \<^verbatim>\<open>min_cost_matching\<close>, \<^verbatim>\<open>list(range(len(xs)))\<close> in \<^verbatim>\<open>matching_cascade\<close>.
\<close>

definition arange_default :: "'a list \<Rightarrow> indices option \<Rightarrow> indices" where
  "arange_default xs given = (case given of None \<Rightarrow> NdArray [0..<length xs] | Some i \<Rightarrow> i)"

definition range_default :: "'a list \<Rightarrow> indices option \<Rightarrow> indices" where
  "range_default xs given = (case given of None \<Rightarrow> PyList [0..<length xs] | Some i \<Rightarrow> i)"

text \<open>\<^verbatim>\<open>(not track_indices) or (not detection_indices)\<close>, evaluated left to right.\<close>

definition nothing_to_match :: "indices \<Rightarrow> indices \<Rightarrow> error + bool" where
  "nothing_to_match track_indices detection_indices =
     bnd (truth track_indices) (\<lambda>some_tracks.
       if \<not> some_tracks then Inr True
       else bnd (truth detection_indices) (\<lambda>some_detections. Inr (\<not> some_detections)))"

definition min_cost_matching ::
  "assignment_solver \<Rightarrow> cost_function \<Rightarrow> real \<Rightarrow> track list \<Rightarrow> detection list \<Rightarrow>
   indices option \<Rightarrow> indices option \<Rightarrow> error + ((nat \<times> nat) list \<times> indices \<times> indices)" where
  "min_cost_matching linear_assignment distance_metric max_distance tracks detections
     track_indices detection_indices =
   (let track_indices = arange_default tracks track_indices;
        detection_indices = arange_default detections detection_indices
    in bnd (nothing_to_match track_indices detection_indices) (\<lambda>nothing.
       if nothing then Inr ([], track_indices, detection_indices)
       else
         bnd (distance_metric tracks detections track_indices detection_indices) (\<lambda>cost_matrix.
         let cost_matrix = clamp max_distance cost_matrix;
             indices = linear_assignment cost_matrix;
             unmatched_detections = not_selected (map snd indices) (elems detection_indices);
             unmatched_tracks = not_selected (map fst indices) (elems track_indices)
         in bnd (examine max_distance cost_matrix (elems track_indices) (elems detection_indices)
                   indices ([], unmatched_tracks, unmatched_detections))
              (\<lambda>(matches, unmatched_tracks, unmatched_detections).
                 Inr (matches, PyList unmatched_tracks, PyList unmatched_detections)))))"

section \<open>\<^verbatim>\<open>matching_cascade\<close>\<close>

text \<open>
  \<^verbatim>\<open>[k for k in track_indices if p(tracks[k])]\<close>: every \<^verbatim>\<open>tracks[k]\<close> is read,
  so one position out of range raises \<^verbatim>\<open>IndexError\<close>.
\<close>

definition select_tracks :: "track list \<Rightarrow> (track \<Rightarrow> bool) \<Rightarrow> nat list \<Rightarrow> error + nat list" where
  "select_tracks tracks p track_indices =
     (if list_all (\<lambda>k. k < length tracks) track_indices
      then Inr (filter (\<lambda>k. p (tracks ! k)) track_indices)
      else Inl IndexError)"

text \<open>
  \<^verbatim>\<open>list(set(xs))\<close>: the elements of \<open>xs\<close>, each once. The order in which Python
  iterates over a set is an implementation detail; the model lists them in
  ascending order.
\<close>

definition list_of_set :: "nat set \<Rightarrow> nat list" where
  "list_of_set A = sorted_list_of_set A"

text \<open>
  What one iteration of the level loop did, kept beside the loop's variables: the
  loop left at \<^verbatim>\<open>break\<close>, the level passed over at \<^verbatim>\<open>continue\<close>, or the
  Matcher called with the level's tracks and the current detection pool, with
  the matches and the unmatched detections it returned.
\<close>

datatype level_event =
    Stopped nat
  | Skipped nat
  | Ran nat "nat list" indices "(nat \<times> nat) list" indices

fun cascade_levels ::
  "assignment_solver \<Rightarrow> cost_function \<Rightarrow> real \<Rightarrow> track list \<Rightarrow> detection list \<Rightarrow>
   indices \<Rightarrow> nat list \<Rightarrow> (nat \<times> nat) list \<times> indices \<times> level_event list \<Rightarrow>
   error + ((nat \<times> nat) list \<times> indices \<times> level_event list)" where
  "cascade_levels linear_assignment distance_metric max_distance tracks detections
     track_indices [] acc = Inr acc"
| "cascade_levels linear_assignment distance_metric max_distance tracks detections
     track_indices (level # levels) (matches, unmatched_detections, trace) =
     (if length (elems unmatched_detections) = 0
      then Inr (matches, unmatched_detections, trace @ [Stopped level])
      else
        bnd (select_tracks tracks (\<lambda>t. time_since_update t = 1 + level) (elems track_indices))
          (\<lambda>track_indices_l.
        if length track_indices_l = 0
        then cascade_levels linear_assignment distance_metric max_distance tracks detections
               track_indices levels (matches, unmatched_detections, trace @ [Skipped level])
        else
          bnd (min_cost_matching linear_assignment distance_metric max_distance tracks detections
                 (Some (PyList track_indices_l)) (Some unmatched_detections))
            (\<lambda>(matches_l, _, unmatched_detections_l).
               cascade_levels linear_assignment distance_metric max_distance tracks detections
                 track_indices levels
                 (matches @ matches_l, unmatched_detections_l,
                  trace @ [Ran level track_indices_l unmatched_detections matches_l
                             unmatched_detections_l]))))"

definition cascade_run ::
  "assignment_solver \<Rightarrow> cost_function \<Rightarrow> real \<Rightarrow> nat \<Rightarrow> track list \<Rightarrow> detection list \<Rightarrow>
   indices option \<Rightarrow> indices option \<Rightarrow>
   error + ((nat \<times> nat) list \<times> nat list \<times> indices \<times> level_event list)" where
  "cascade_run linear_assignment distance_metric max_distance cascade_depth tracks detections
     track_indices detection_indices =
   (let track_indices = range_default tracks track_indices;
        detection_indices = range_default detections detection_indices
    in bnd (cascade_levels linear_assignment distance_metric max_distance tracks detections
              track_indices [0..<cascade_depth] ([], detection_indices, []))
         (\<lambda>(matches, unmatched_detections, trace).
            Inr (matches,
                 list_of_set (set (elems track_indices) - set (map fst matches)),
                 unmatched_detections, trace)))"

definition matching_cascade ::
  "assignment_solver \<Rightarrow> cost_function \<Rightarrow> real \<Rightarrow> nat \<Rightarrow> track list \<Rightarrow> detection list \<Rightarrow>
   indices option \<Rightarrow> indices option \<Rightarrow> error + ((nat \<times> nat) list \<times> nat list \<times> indices)" where
  "matching_cascade linear_assignment distance_metric max_distance cascade_depth tracks detections
     track_indices detection_indices =
   bnd (cascade_run linear_assignment distance_metric max_distance cascade_depth tracks detections
          track_indices detection_indices)
     (\<lambda>(matches, unmatched_tracks, unmatched_detections, trace).
        Inr (matches, unmatched_tracks, unmatched_detections))"

definition cascade_trace ::
  "assignment_solver \<Rightarrow> cost_function \<Rightarrow> real \<Rightarrow> nat \<Rightarrow> track list \<Rightarrow> detection list \<Rightarrow>
   indices option \<Rightarrow> indices option \<Rightarrow> error + level_event list" where
  "cascade_trace linear_assignment distance_metric max_distance cascade_depth tracks detections
     track_indices detection_indices =
   bnd (cascade_run linear_assignment distance_metric max_distance cascade_depth tracks detections
          track_indices detection_indices)
     (\<lambda>(matches, unmatched_tracks, unmatched_detections, trace). Inr trace)"

section \<open>\<^verbatim>\<open>get_cost_matrix\<close>\<close>

text \<open>
  Modelled from the spec: the table \<^verbatim>\<open>KalmanFilter.chi_square\<close>
  (\<^verbatim>\<open>deep_sort/kalman_filter.py\<close>) is not among the sources; the specification
  gives its entries for 2 and 4 degrees of freedom.
\<close>

definition chi_square :: "nat \<rightharpoonup> real" where
  "chi_square = [2 \<mapsto> 59915 / 10000, 4 \<mapsto> 94877 / 10000]"

text \<open>
  The motion model's \<^verbatim>\<open>gating_distance(mean, covariance, measurements,
  only_position)\<close> is a parameter: it returns one squared distance per measurement.
\<close>

type_synonym gating = "real list \<Rightarrow> real list list \<Rightarrow> real list list \<Rightarrow> bool \<Rightarrow> real list"

text \<open>
  \<^verbatim>\<open>cost_matrix[row, mask] = value\<close> with a boolean mask: numpy raises
  \<^verbatim>\<open>IndexError\<close> when the row is out of range or the mask is not as long as the row.
\<close>

definition mask_assign :: "matrix \<Rightarrow> nat \<Rightarrow> bool list \<Rightarrow> real \<Rightarrow> error + matrix" where
  "mask_assign cost_matrix row flags val =
     (if row < length cost_matrix \<and> length flags = length (cost_matrix ! row)
      then Inr (cost_matrix[row := map (\<lambda>(b, c). if b then val else c) (zip flags (cost_matrix ! row))])
      else Inl IndexError)"

fun gate_rows ::
  "gating \<Rightarrow> real \<Rightarrow> real list list \<Rightarrow> bool \<Rightarrow> real \<Rightarrow> track list \<Rightarrow> (nat \<times> nat) list \<Rightarrow>
   matrix \<Rightarrow> error + matrix" where
  "gate_rows kf_gating_distance gating_threshold measurements only_position gated_cost tracks
     [] cost_matrix = Inr cost_matrix"
| "gate_rows kf_gating_distance gating_threshold measurements only_position gated_cost tracks
     ((row, track_idx) # rest) cost_matrix =
     bnd (item tracks track_idx) (\<lambda>track.
       let gating_distance =
             kf_gating_distance (mean track) (covariance track) measurements only_position
       in bnd (mask_assign cost_matrix row (map (\<lambda>g. g > gating_threshold) gating_distance)
                 gated_cost)
            (gate_rows kf_gating_distance gating_threshold measurements only_position gated_cost
               tracks rest))"

definition get_cost_matrix ::
  "gating \<Rightarrow> matrix \<Rightarrow> track list \<Rightarrow> detection list \<Rightarrow> indices \<Rightarrow> indices \<Rightarrow> real \<Rightarrow> bool \<Rightarrow>
   error + matrix" where
  "get_cost_matrix kf_gating_distance cost_matrix tracks detections track_indices
     detection_indices gated_cost only_position =
   (let gating_dim = (if only_position then 2 else 4) in
    bnd (case chi_square gating_dim of None \<Rightarrow> Inl KeyError | Some t \<Rightarrow> Inr t)
      (\<lambda>gating_threshold.
    bnd (comprehension (\<lambda>i. bnd (item detections i) (\<lambda>d. Inr (to_xyah d)))
           (elems detection_indices))
      (\<lambda>measurements.
    gate_rows kf_gating_distance gating_threshold measurements only_position gated_cost tracks
      (enumerate 0 (elems track_indices)) cost_matrix)))"

section \<open>The Tracker\<close>

text \<open>
  Modelled from the spec: the methods of \<^verbatim>\<open>Track\<close> (\<^verbatim>\<open>deep_sort/track.py\<close>, not
  among the sources) as the lifecycle state machine of the specification gives
  them. A successful match updates the motion state, records the detection's
  feature and class, counts the hit and promotes a Tentative track that reached
  \<open>n_init\<close> hits; a miss deletes a Tentative track, and a Confirmed one whose
  \<open>time_since_update\<close> exceeds \<open>max_age\<close>; a new track is Tentative with no hits.
\<close>

definition is_confirmed :: "track \<Rightarrow> bool" where
  "is_confirmed t \<longleftrightarrow> state t = Confirmed"

definition is_deleted :: "track \<Rightarrow> bool" where
  "is_deleted t \<longleftrightarrow> state t = Deleted"

definition track_update ::
  "(real list \<Rightarrow> real list list \<Rightarrow> real list \<Rightarrow> real list \<times> real list list) \<Rightarrow>
   track \<Rightarrow> detection \<Rightarrow> track" where
  "track_update kf_update t d =
     (let (m, c) = kf_update (mean t) (covariance t) (to_xyah d);
          t1 = t\<lparr>mean := m, covariance := c, features := features t @ [feature d],
                 class_id := get_class d, hits := hits t + 1, time_since_update := 0\<rparr>
      in if state t1 = Tentative \<and> hits t1 \<ge> n_init_of t1 then t1\<lparr>state := Confirmed\<rparr> else t1)"

definition mark_missed :: "track \<Rightarrow> track" where
  "mark_missed t =
     (if state t = Tentative then t\<lparr>state := Deleted\<rparr>
      else if state t = Confirmed \<and> time_since_update t > max_age_of t then t\<lparr>state := Deleted\<rparr>
      else t)"

definition new_track ::
  "real list \<Rightarrow> real list list \<Rightarrow> nat \<Rightarrow> nat \<Rightarrow> nat \<Rightarrow> real list \<Rightarrow> nat \<Rightarrow> track" where
  "new_track m c tid n_init_arg max_age_arg feat cls =
     \<lparr>mean = m, covariance = c, track_id = tid, state = Tentative, hits = 0, age = 0,
      time_since_update = 0, features = [feat], class_id = cls,
      n_init_of = n_init_arg, max_age_of = max_age_arg\<rparr>"

text \<open>
  The collaborators of the Tracker are parameters: the Assignment Solver, the IOU
  cost function (\<^verbatim>\<open>iou_matching.iou_cost\<close>), the appearance metric with its
  gallery of type \<open>'g\<close> (\<^verbatim>\<open>distance\<close>, \<^verbatim>\<open>partial_fit\<close>,
  \<^verbatim>\<open>matching_threshold\<close>) and the Kalman filter (\<^verbatim>\<open>initiate\<close>, \<^verbatim>\<open>update\<close>,
  \<^verbatim>\<open>gating_distance\<close>).
\<close>

record 'g collaborators =
  linear_assignment :: assignment_solver
  iou_cost :: cost_function
  distance :: "'g \<Rightarrow> real list list \<Rightarrow> nat list \<Rightarrow> error + matrix"
  partial_fit :: "'g \<Rightarrow> real list list \<Rightarrow> nat list \<Rightarrow> nat list \<Rightarrow> 'g"
  matching_threshold :: "'g \<Rightarrow> real"
  kf_initiate :: "real list \<Rightarrow> real list \<times> real list list"
  kf_update :: "real list \<Rightarrow> real list list \<Rightarrow> real list \<Rightarrow> real list \<times> real list list"
  kf_gating_distance :: gating

record 'g tracker =
  metric :: 'g
  max_age :: nat
  max_iou_distance :: real
  n_init :: nat
  tracks :: "track list"
  next_id :: nat

text \<open>The closure \<^verbatim>\<open>gated_metric\<close> of \<^verbatim>\<open>Tracker._match\<close>.\<close>

definition gated_metric :: "'g collaborators \<Rightarrow> 'g tracker \<Rightarrow> cost_function" where
  "gated_metric env self trks dets track_indices detection_indices =
     bnd (comprehension (\<lambda>i. bnd (item dets i) (\<lambda>d. Inr (feature d))) (elems detection_indices))
       (\<lambda>feats.
     bnd (comprehension (\<lambda>i. bnd (item trks i) (\<lambda>t. Inr (track_id t))) (elems track_indices))
       (\<lambda>targets.
     bnd (distance env (metric self) feats targets) (\<lambda>cost_matrix.
     get_cost_matrix (kf_gating_distance env) cost_matrix trks dets track_indices
       detection_indices INFTY_COST False)))"

text \<open>The split of the track set into confirmed and unconfirmed positions.\<close>

definition confirmed_tracks :: "track list \<Rightarrow> nat list" where
  "confirmed_tracks ts = map fst (filter (\<lambda>(i, t). is_confirmed t) (enumerate 0 ts))"

definition unconfirmed_tracks :: "track list \<Rightarrow> nat list" where
  "unconfirmed_tracks ts = map fst (filter (\<lambda>(i, t). \<not> is_confirmed t) (enumerate 0 ts))"

text \<open>
  \<^verbatim>\<open>Tracker._match\<close>. The second Matcher call returns Python lists for list
  arguments, so \<^verbatim>\<open>unmatched_tracks_a + unmatched_tracks_b\<close> concatenates lists.
\<close>

definition tracker_match ::
  "'g collaborators \<Rightarrow> 'g tracker \<Rightarrow> detection list \<Rightarrow>
   error + ((nat \<times> nat) list \<times> nat list \<times> indices)" where
  "tracker_match env self detections =
     bnd (matching_cascade (linear_assignment env) (gated_metric env self)
            (matching_threshold env (metric self)) (max_age self) (tracks self) detections
            (Some (PyList (confirmed_tracks (tracks self)))) None)
       (\<lambda>(matches_a, unmatched_tracks_a, unmatched_detections).
     bnd (select_tracks (tracks self) (\<lambda>t. time_since_update t = 1) unmatched_tracks_a)
       (\<lambda>retried.
     let iou_track_candidates = unconfirmed_tracks (tracks self) @ retried in
     bnd (select_tracks (tracks self) (\<lambda>t. time_since_update t \<noteq> 1) unmatched_tracks_a)
       (\<lambda>unmatched_tracks_a.
     bnd (min_cost_matching (linear_assignment env) (iou_cost env) (max_iou_distance self)
            (tracks self) detections (Some (PyList iou_track_candidates))
            (Some unmatched_detections))
       (\<lambda>(matches_b, unmatched_tracks_b, unmatched_detections).
          Inr (matches_a @ matches_b,
               list_of_set (set (unmatched_tracks_a @ elems unmatched_tracks_b)),
               unmatched_detections)))))"

text \<open>The three loops of \<^verbatim>\<open>Tracker.update\<close> that apply the matching to the track set.\<close>

fun update_matched ::
  "'g collaborators \<Rightarrow> detection list \<Rightarrow> (nat \<times> nat) list \<Rightarrow> track list \<Rightarrow> error + track list" where
  "update_matched env detections [] ts = Inr ts"
| "update_matched env detections ((track_idx, detection_idx) # rest) ts =
     bnd (item ts track_idx) (\<lambda>t.
     bnd (item detections detection_idx) (\<lambda>d.
     update_matched env detections rest (ts[track_idx := track_update (kf_update env) t d])))"

fun miss_unmatched :: "nat list \<Rightarrow> track list \<Rightarrow> error + track list" where
  "miss_unmatched [] ts = Inr ts"
| "miss_unmatched (track_idx # rest) ts =
     bnd (item ts track_idx) (\<lambda>t. miss_unmatched rest (ts[track_idx := mark_missed t]))"

definition initiate_track :: "'g collaborators \<Rightarrow> 'g tracker \<Rightarrow> detection \<Rightarrow> 'g tracker" where
  "initiate_track env self d =
     (let (m, c) = kf_initiate env (to_xyah d) in
      self\<lparr>tracks := tracks self @
                [new_track m c (next_id self) (n_init self) (max_age self) (feature d) (get_class d)],
           next_id := next_id self + 1\<rparr>)"

fun initiate_unmatched ::
  "'g collaborators \<Rightarrow> detection list \<Rightarrow> nat list \<Rightarrow> 'g tracker \<Rightarrow> error + 'g tracker" where
  "initiate_unmatched env detections [] self = Inr self"
| "initiate_unmatched env detections (detection_idx # rest) self =
     bnd (item detections detection_idx) (\<lambda>d.
     initiate_unmatched env detections rest (initiate_track env self d))"

text \<open>
  The loop that gathers the features of the confirmed tracks: it returns the
  tracks as the loop leaves them with the two accumulators.
\<close>

fun gather ::
  "track list \<Rightarrow> real list list \<times> nat list \<Rightarrow> track list \<times> real list list \<times> nat list" where
  "gather [] (feats, targets) = ([], feats, targets)"
| "gather (t # rest) (feats, targets) =
     (if \<not> is_confirmed t
      then (let (rest', feats', targets') = gather rest (feats, targets)
            in (t # rest', feats', targets'))
      else (let (rest', feats', targets') =
                  gather rest (feats @ features t, targets @ map (\<lambda>_. track_id t) (features t))
            in (t\<lparr>features := []\<rparr> # rest', feats', targets')))"

text \<open>
  The first half of \<^verbatim>\<open>Tracker.update\<close>: matching, the lifecycle transitions, the
  new tracks, and the removal of deleted tracks.
\<close>

definition update_track_set ::
  "'g collaborators \<Rightarrow> 'g tracker \<Rightarrow> detection list \<Rightarrow> error + 'g tracker" where
  "update_track_set env self detections =
     bnd (tracker_match env self detections)
       (\<lambda>(matches, unmatched_tracks, unmatched_detections).
     bnd (update_matched env detections matches (tracks self)) (\<lambda>ts.
     bnd (miss_unmatched unmatched_tracks ts) (\<lambda>ts.
     bnd (initiate_unmatched env detections (elems unmatched_detections) (self\<lparr>tracks := ts\<rparr>))
       (\<lambda>self. Inr (self\<lparr>tracks := filter (\<lambda>t. \<not> is_deleted t) (tracks self)\<rparr>)))))"

text \<open>
  The second half: the refresh of the metric's gallery. The result holds the new
  Tracker and the arguments of the call of \<^verbatim>\<open>partial_fit\<close>.
\<close>

definition update_distance_metric ::
  "'g collaborators \<Rightarrow> 'g tracker \<Rightarrow> 'g tracker \<times> (real list list \<times> nat list \<times> nat list)" where
  "update_distance_metric env self =
     (let active_targets = map track_id (filter is_confirmed (tracks self));
          (ts, feats, targets) = gather (tracks self) ([], [])
      in (self\<lparr>tracks := ts, metric := partial_fit env (metric self) feats targets active_targets\<rparr>,
          (feats, targets, active_targets)))"

definition tracker_update ::
  "'g collaborators \<Rightarrow> 'g tracker \<Rightarrow> detection list \<Rightarrow>
   error + ('g tracker \<times> (real list list \<times> nat list \<times> nat list))" where
  "tracker_update env self detections =
     bnd (update_track_set env self detections) (\<lambda>self. Inr (update_distance_metric env self))"

section \<open>A reference Assignment Solver\<close>

text \<open>
  Modelled from the spec: the Assignment Solver is the library function
  \<^verbatim>\<open>scipy.optimize.linear_sum_assignment\<close>; its contract is that of the
  specification: for an \<open>R \<times> C\<close> matrix, a one-to-one matching of \<open>min R C\<close> pairs
  of minimum total cost. The reference solver enumerates the one-to-one matchings
  of that size (rows ascending) and picks the first one of minimum cost.
\<close>

fun injections :: "nat \<Rightarrow> nat list \<Rightarrow> nat list list" where
  "injections 0 xs = [[]]"
| "injections (Suc n) xs =
     concat (map (\<lambda>x. map ((#) x) (injections n (removeAll x xs))) xs)"

definition candidates :: "nat \<Rightarrow> nat \<Rightarrow> (nat \<times> nat) list list" where
  "candidates R C =
     concat (map (\<lambda>rows. map (zip rows) (injections (length rows) [0..<C]))
               (filter (\<lambda>rows. length rows = min R C) (subseqs [0..<R])))"

definition total_cost :: "matrix \<Rightarrow> (nat \<times> nat) list \<Rightarrow> real" where
  "total_cost cost_matrix sel = sum_list (map (\<lambda>(row, col). cost_matrix ! row ! col) sel)"

definition ncols :: "matrix \<Rightarrow> nat" where
  "ncols cost_matrix = (case cost_matrix of [] \<Rightarrow> 0 | r # _ \<Rightarrow> length r)"

definition linear_sum_assignment :: assignment_solver where
  "linear_sum_assignment cost_matrix =
     (case candidates (length cost_matrix) (ncols cost_matrix) of
        [] \<Rightarrow> []
      | c # cs \<Rightarrow> arg_min_list (total_cost cost_matrix) (c # cs))"

section \<open>The contract of the Assignment Solver\<close>

definition one_to_one :: "(nat \<times> nat) list \<Rightarrow> bool" where
  "one_to_one sel \<longleftrightarrow> distinct (map fst sel) \<and> distinct (map snd sel)"

definition assignment :: "nat \<Rightarrow> nat \<Rightarrow> (nat \<times> nat) list \<Rightarrow> bool" where
  "assignment R C sel \<longleftrightarrow>
     one_to_one sel \<and> list_all (\<lambda>(row, col). row < R \<and> col < C) sel \<and> length sel = min R C"

definition optimal :: "nat \<Rightarrow> nat \<Rightarrow> matrix \<Rightarrow> (nat \<times> nat) list \<Rightarrow> bool" where
  "optimal R C cost_matrix sel \<longleftrightarrow>
     assignment R C sel \<and>
     (\<forall>sel'. assignment R C sel' \<longrightarrow> total_cost cost_matrix sel \<le> total_cost cost_matrix sel')"

section \<open>Closed forms of the loops\<close>

text \<open>
  The solver's pairs that the last loop of \<^verbatim>\<open>min_cost_matching\<close> keeps as
  matches and those it rejects, and the condition under which no index it reads
  is out of range.
\<close>

definition accepted :: "real \<Rightarrow> matrix \<Rightarrow> (nat \<times> nat) list \<Rightarrow> (nat \<times> nat) list" where
  "accepted max_distance cost_matrix sel =
     filter (\<lambda>(row, col). \<not> cost_matrix ! row ! col > max_distance) sel"

definition rejected :: "real \<Rightarrow> matrix \<Rightarrow> (nat \<times> nat) list \<Rightarrow> (nat \<times> nat) list" where
  "rejected max_distance cost_matrix sel =
     filter (\<lambda>(row, col). cost_matrix ! row ! col > max_distance) sel"

definition in_range :: "matrix \<Rightarrow> nat list \<Rightarrow> nat list \<Rightarrow> (nat \<times> nat) list \<Rightarrow> bool" where
  "in_range cost_matrix ts ds sel \<longleftrightarrow>
     list_all (\<lambda>(row, col). row < length ts \<and> col < length ds \<and>
                 row < length cost_matrix \<and> col < length (cost_matrix ! row)) sel"

definition matcher_result ::
  "real \<Rightarrow> matrix \<Rightarrow> nat list \<Rightarrow> nat list \<Rightarrow> (nat \<times> nat) list \<Rightarrow>
   (nat \<times> nat) list \<times> indices \<times> indices" where
  "matcher_result max_distance cost_matrix ts ds sel =
     (map (\<lambda>(row, col). (ts ! row, ds ! col)) (accepted max_distance cost_matrix sel),
      PyList (not_selected (map fst sel) ts @
              map (\<lambda>(row, col). ts ! row) (rejected max_distance cost_matrix sel)),
      PyList (not_selected (map snd sel) ds @
              map (\<lambda>(row, col). ds ! col) (rejected max_distance cost_matrix sel)))"

text \<open>One row of the cost matrix after the gating assignment for a track.\<close>

definition gated_row ::
  "gating \<Rightarrow> real \<Rightarrow> real list list \<Rightarrow> bool \<Rightarrow> real \<Rightarrow> track \<Rightarrow> real list \<Rightarrow> real list" where
  "gated_row gd thr meas op gc t r =
     map (\<lambda>(g, c). if g > thr then gc else c) (zip (gd (mean t) (covariance t) meas op) r)"

section \<open>Reading the trace of the level loop\<close>

fun level_of :: "level_event \<Rightarrow> nat" where
  "level_of (Stopped level) = level"
| "level_of (Skipped level) = level"
| "level_of (Ran level track_indices_l pool matches_l unmatched_l) = level"

fun matches_of :: "level_event \<Rightarrow> (nat \<times> nat) list" where
  "matches_of (Ran level track_indices_l pool matches_l unmatched_l) = matches_l"
| "matches_of _ = []"

text \<open>The detection pool after a sequence of events that started with the pool \<open>p\<close>.\<close>

fun pool_after :: "indices \<Rightarrow> level_event list \<Rightarrow> indices" where
  "pool_after p [] = p"
| "pool_after p (Ran level track_indices_l pool matches_l unmatched_l # evs) =
     pool_after unmatched_l evs"
| "pool_after p (_ # evs) = pool_after p evs"

text \<open>
  What the event of one level has to be, for the level, the pool at the start of the level
  and the track subset of the cascade; \<open>final\<close> says that the event is the last one.
\<close>

fun level_step ::
  "assignment_solver \<Rightarrow> cost_function \<Rightarrow> real \<Rightarrow> track list \<Rightarrow> detection list \<Rightarrow> nat list \<Rightarrow>
   nat \<Rightarrow> indices \<Rightarrow> bool \<Rightarrow> level_event \<Rightarrow> bool" where
  "level_step solver dm maxd trks dets ts level pool final (Stopped l) \<longleftrightarrow>
     l = level \<and> elems pool = [] \<and> final"
| "level_step solver dm maxd trks dets ts level pool final (Skipped l) \<longleftrightarrow>
     l = level \<and> elems pool \<noteq> [] \<and>
     select_tracks trks (\<lambda>t. time_since_update t = 1 + level) ts = Inr []"
| "level_step solver dm maxd trks dets ts level pool final (Ran l tsl p ml ud) \<longleftrightarrow>
     l = level \<and> p = pool \<and> elems pool \<noteq> [] \<and> tsl \<noteq> [] \<and>
     select_tracks trks (\<lambda>t. time_since_update t = 1 + level) ts = Inr tsl \<and>
     (\<exists>ut. min_cost_matching solver dm maxd trks dets (Some (PyList tsl)) (Some pool)
             = Inr (ml, ut, ud))"

definition level_loop ::
  "assignment_solver \<Rightarrow> cost_function \<Rightarrow> real \<Rightarrow> track list \<Rightarrow> detection list \<Rightarrow> nat list \<Rightarrow>
   nat list \<Rightarrow> indices \<Rightarrow> level_event list \<Rightarrow> bool" where
  "level_loop solver dm maxd trks dets ts levels p evs \<longleftrightarrow>
     length evs \<le> length levels \<and>
     (\<forall>i < length evs.
        level_step solver dm maxd trks dets ts (levels ! i) (pool_after p (take i evs))
          (Suc i = length evs) (evs ! i)) \<and>
     (length evs < length levels \<longrightarrow> evs \<noteq> [] \<and> (\<exists>l. last evs = Stopped l))"

text \<open>Every Matcher call of a trace was made with the pool the events before it left.\<close>

definition matcher_calls ::
  "assignment_solver \<Rightarrow> cost_function \<Rightarrow> real \<Rightarrow> track list \<Rightarrow> detection list \<Rightarrow>
   indices \<Rightarrow> level_event list \<Rightarrow> bool" where
  "matcher_calls solver dm maxd trks dets p evs \<longleftrightarrow>
     (\<forall>i < length evs. \<forall>l tsl pool ml ud. evs ! i = Ran l tsl pool ml ud \<longrightarrow>
        pool = pool_after p (take i evs) \<and>
        (\<exists>ut. min_cost_matching solver dm maxd trks dets (Some (PyList tsl)) (Some pool)
                = Inr (ml, ut, ud)))"

text \<open>Every Matcher call of a trace was made for the level of its position in the trace.\<close>

definition matcher_levels :: "track list \<Rightarrow> nat list \<Rightarrow> level_event list \<Rightarrow> bool" where
  "matcher_levels trks ts evs \<longleftrightarrow>
     (\<forall>i < length evs. \<forall>l tsl pool ml ud. evs ! i = Ran l tsl pool ml ud \<longrightarrow>
        tsl = filter (\<lambda>k. time_since_update (trks ! k) = 1 + i) ts)"

section \<open>Assignments as sets of pairs\<close>

text \<open>The cost of a pair of positions, and the total cost over a set of pairs.\<close>

definition pair_cost :: "matrix \<Rightarrow> nat \<times> nat \<Rightarrow> real" where
  "pair_cost cost_matrix p = cost_matrix ! fst p ! snd p"

definition matching_set :: "nat \<Rightarrow> nat \<Rightarrow> (nat \<times> nat) set \<Rightarrow> bool" where
  "matching_set R C S \<longleftrightarrow>
     finite S \<and> inj_on fst S \<and> inj_on snd S \<and> S \<subseteq> {..<R} \<times> {..<C} \<and> card S = min R C"

section \<open>The unmatched lists as the specification words them\<close>

text \<open>
  The property of the unmatched lists as the specification words it: an index returned
  unmatched has only partners, in the opposite subset, whose cost exceeds \<open>max_distance\<close>
  (none, when the opposite subset is empty).
\<close>

definition only_infeasible_partners ::
  "real \<Rightarrow> matrix \<Rightarrow> nat list \<Rightarrow> nat list \<Rightarrow> nat list \<Rightarrow> nat list \<Rightarrow> bool" where
  "only_infeasible_partners max_distance cost_matrix ts ds unmatched_tracks
     unmatched_detections \<longleftrightarrow>
     (\<forall>row < length ts. ts ! row \<in> set unmatched_tracks \<longrightarrow>
        (\<forall>col < length ds. cost_matrix ! row ! col > max_distance)) \<and>
     (\<forall>col < length ds. ds ! col \<in> set unmatched_detections \<longrightarrow>
        (\<forall>row < length ts. cost_matrix ! row ! col > max_distance))"

section \<open>Example data\<close>

text \<open>Small concrete tracks, detections and collaborators, used to run the model.\<close>

definition pos_of :: "real list \<Rightarrow> real" where
  "pos_of v = (case v of [] \<Rightarrow> 0 | x # _ \<Rightarrow> x)"

definition example_track :: "nat \<Rightarrow> track_state \<Rightarrow> nat \<Rightarrow> real \<Rightarrow> track" where
  "example_track tid st tsu p =
     \<lparr>mean = [p], covariance = [[1]], track_id = tid, state = st, hits = 3, age = 5,
      time_since_update = tsu, features = [[p]], class_id = 0, n_init_of = 3, max_age_of = 30\<rparr>"

definition example_detection :: "real \<Rightarrow> detection" where
  "example_detection p = \<lparr>to_xyah = [p], feature = [p], get_class = 0\<rparr>"

definition example_gating :: gating where
  "example_gating m c measurements only_position =
     map (\<lambda>z. (pos_of z - pos_of m) * (pos_of z - pos_of m)) measurements"

definition example_cost :: cost_function where
  "example_cost trks dets track_indices detection_indices =
     Inr (map (\<lambda>k. map (\<lambda>i. \<bar>pos_of (mean (trks ! k)) - pos_of (to_xyah (dets ! i))\<bar> / 10)
                     (elems detection_indices))
            (elems track_indices))"

definition example_env :: "(nat \<times> real) list collaborators" where
  "example_env =
     \<lparr>linear_assignment = linear_sum_assignment,
      iou_cost = example_cost,
      distance = (\<lambda>gallery feats targets.
        Inr (map (\<lambda>tid. map (\<lambda>f. case map_of gallery tid of None \<Rightarrow> 1
                                     | Some p \<Rightarrow> \<bar>pos_of f - p\<bar> / 10) feats) targets)),
      partial_fit = (\<lambda>gallery feats targets active.
        filter (\<lambda>(tid, p). tid \<in> set active) (gallery @ zip targets (map pos_of feats))),
      matching_threshold = (\<lambda>gallery. 2 / 10),
      kf_initiate = (\<lambda>box. (box, [[1]])),
      kf_update = (\<lambda>m c box. (box, c)),
      kf_gating_distance = example_gating\<rparr>"

definition example_tracker :: "(nat \<times> real) list tracker" where
  "example_tracker =
     \<lparr>metric = [(1, 0), (2, 5)], max_age = 30, max_iou_distance = 7 / 10, n_init = 3,
      tracks = [example_track 1 Confirmed 1 0, example_track 2 Confirmed 2 5,
                example_track 3 Tentative 1 9, example_track 4 Confirmed 1 28],
      next_id = 5\<rparr>"

definition example_detections :: "detection list" where
  "example_detections =
     [example_detection (5 / 10), example_detection (92 / 10), example_detection 30,
      example_detection 60]"

section \<open>Properties\<close>

subsection \<open>Results and indexing\<close>

lemma bnd_Inr_iff: "bnd m f = Inr y \<longleftrightarrow> (\<exists>x. m = Inr x \<and> f x = Inr y)"
  by (cases m) (simp_all add: bnd_def)

lemma bnd_Inr [simp]: "bnd (Inr x) f = f x"
  by (simp add: bnd_def)

lemma bnd_Inl [simp]: "bnd (Inl e) f = Inl e"
  by (simp add: bnd_def)

lemma item_Inr_iff: "item xs i = Inr x \<longleftrightarrow> i < length xs \<and> x = xs ! i"
  by (auto simp: item_def)

lemma entry_Inr_iff:
  "entry cm row col = Inr c \<longleftrightarrow> row < length cm \<and> col < length (cm ! row) \<and> c = cm ! row ! col"
  by (auto simp: entry_def bnd_Inr_iff item_Inr_iff)

lemma examine_Inr_iff:
  "examine maxd cm ts ds sel (m, ut, ud) = Inr r \<longleftrightarrow>
     in_range cm ts ds sel \<and>
     r = (m @ map (\<lambda>(row, col). (ts ! row, ds ! col)) (accepted maxd cm sel),
          ut @ map (\<lambda>(row, col). ts ! row) (rejected maxd cm sel),
          ud @ map (\<lambda>(row, col). ds ! col) (rejected maxd cm sel))"
proof (induction sel arbitrary: m ut ud)
  case Nil
  show ?case by (auto simp: in_range_def accepted_def rejected_def)
next
  case (Cons p sel)
  obtain row col where p: "p = (row, col)" by (cases p)
  show ?case
    unfolding p
    by (auto simp: bnd_Inr_iff item_Inr_iff entry_Inr_iff Cons.IH in_range_def accepted_def
        rejected_def)
qed

lemma enumerate_positions: "enumerate 0 xs = map (\<lambda>i. (i, xs ! i)) [0..<length xs]"
  by (rule nth_equalityI) (simp_all add: nth_enumerate_eq)

lemma not_selected_eq:
  "not_selected selected xs = map ((!) xs) (filter (\<lambda>pos. pos \<notin> set selected) [0..<length xs])"
  by (simp add: not_selected_def enumerate_positions filter_map comp_def)

lemma mset_positions:
  assumes "distinct ps" and "\<forall>p \<in> set ps. p < length xs"
  shows "mset (not_selected ps xs) + mset (map ((!) xs) ps) = mset xs"
proof -
  let ?n = "length xs"
  let ?out = "filter (\<lambda>p. p \<notin> set ps) [0..<?n]"
  let ?in = "filter (\<lambda>p. p \<in> set ps) [0..<?n]"
  have "set ?in = set ps" using assms(2) by auto
  moreover have "distinct ?in" by simp
  ultimately have "mset ?in = mset ps"
    using assms(1) set_eq_iff_mset_eq_distinct by blast
  then have sel: "image_mset ((!) xs) (mset ps) = image_mset ((!) xs) (mset ?in)"
    by simp
  have split: "mset ?out + mset ?in = mset [0..<?n]"
    by (metis add.commute mset_filter multiset_partition)
  have "mset (not_selected ps xs) + mset (map ((!) xs) ps)
        = image_mset ((!) xs) (mset ?out + mset ?in)"
    by (simp only: not_selected_eq sel mset_map image_mset_union)
  also have "\<dots> = mset (map ((!) xs) [0..<?n])"
    by (simp only: split mset_map)
  also have "\<dots> = mset xs"
    by (simp only: map_nth)
  finally show ?thesis .
qed

subsection \<open>The Matcher\<close>

lemma nothing_to_match_True_iff:
  "nothing_to_match ti di = Inr True \<longleftrightarrow>
     truth ti = Inr False \<or> (truth ti = Inr True \<and> truth di = Inr False)"
  by (auto simp: nothing_to_match_def bnd_Inr_iff split: if_splits)

lemma nothing_to_match_False_iff:
  "nothing_to_match ti di = Inr False \<longleftrightarrow> truth ti = Inr True \<and> truth di = Inr True"
  by (auto simp: nothing_to_match_def bnd_Inr_iff split: if_splits)


lemma min_cost_matching_early:
  assumes "nothing_to_match (arange_default trks tio) (arange_default dets dio) = Inr True"
  shows "min_cost_matching solver dm maxd trks dets tio dio =
           Inr ([], arange_default trks tio, arange_default dets dio)"
  using assms by (simp add: min_cost_matching_def)

lemma min_cost_matching_solve:
  assumes "nothing_to_match (arange_default trks tio) (arange_default dets dio) = Inr False"
  shows "min_cost_matching solver dm maxd trks dets tio dio = Inr r \<longleftrightarrow>
     (\<exists>cm0. dm trks dets (arange_default trks tio) (arange_default dets dio) = Inr cm0 \<and>
         in_range (clamp maxd cm0) (elems (arange_default trks tio))
           (elems (arange_default dets dio)) (solver (clamp maxd cm0)) \<and>
         r = matcher_result maxd (clamp maxd cm0) (elems (arange_default trks tio))
               (elems (arange_default dets dio)) (solver (clamp maxd cm0)))"
proof -
  define ti where "ti = arange_default trks tio"
  define di where "di = arange_default dets dio"
  have n: "nothing_to_match ti di = Inr False"
    using assms by (simp add: ti_def di_def)
  show ?thesis
  proof (cases "dm trks dets ti di")
    case (Inl e)
    then show ?thesis
      using n by (simp add: min_cost_matching_def ti_def[symmetric] di_def[symmetric])
  next
    case (Inr cm0)
    have "min_cost_matching solver dm maxd trks dets tio dio =
            bnd (examine maxd (clamp maxd cm0) (elems ti) (elems di) (solver (clamp maxd cm0))
                   ([], not_selected (map fst (solver (clamp maxd cm0))) (elems ti),
                    not_selected (map snd (solver (clamp maxd cm0))) (elems di)))
              (\<lambda>(matches, unmatched_tracks, unmatched_detections).
                 Inr (matches, PyList unmatched_tracks, PyList unmatched_detections))"
      using n Inr
      by (simp add: min_cost_matching_def ti_def[symmetric] di_def[symmetric] Let_def)
    then show ?thesis
      unfolding ti_def[symmetric] di_def[symmetric] Inr
      by (auto simp: bnd_Inr_iff examine_Inr_iff matcher_result_def)
  qed
qed

lemma min_cost_matching_error:
  assumes "nothing_to_match (arange_default trks tio) (arange_default dets dio) = Inl e"
  shows "min_cost_matching solver dm maxd trks dets tio dio = Inl e"
  using assms by (simp add: min_cost_matching_def)

lemma length_clamp [simp]: "length (clamp maxd cm) = length cm"
  by (simp add: clamp_def)

lemma length_clamp_row [simp]: "row < length cm \<Longrightarrow> length (clamp maxd cm ! row) = length (cm ! row)"
  by (simp add: clamp_def)

lemma clamp_entry:
  "row < length cm \<Longrightarrow> col < length (cm ! row) \<Longrightarrow>
   clamp maxd cm ! row ! col =
     (if cm ! row ! col > maxd then maxd + 1 / 100000 else cm ! row ! col)"
  by (simp add: clamp_def)


lemma accepted_rejected_mset:
  "mset (map f (accepted maxd cm sel)) + mset (map f (rejected maxd cm sel)) = mset (map f sel)"
proof -
  have "mset (accepted maxd cm sel) + mset (rejected maxd cm sel) = mset sel"
    unfolding accepted_def rejected_def
    by (induction sel) auto
  then show ?thesis
    by (metis image_mset_union mset_map)
qed

lemma in_range_rows: "in_range cm ts ds sel \<Longrightarrow> \<forall>p \<in> set (map fst sel). p < length ts"
  by (auto simp: in_range_def list_all_iff)

lemma in_range_cols: "in_range cm ts ds sel \<Longrightarrow> \<forall>p \<in> set (map snd sel). p < length ds"
  by (auto simp: in_range_def list_all_iff)

lemma matcher_result_tracks:
  assumes "in_range cm ts ds sel" and "distinct (map fst sel)"
    and "matcher_result maxd cm ts ds sel = (m, ut, ud)"
  shows "mset (map fst m) + mset (elems ut) = mset ts"
proof -
  have m: "map fst m = map (\<lambda>(row, col). ts ! row) (accepted maxd cm sel)"
    using assms(3) by (auto simp: matcher_result_def comp_def case_prod_unfold)
  have ut: "elems ut = not_selected (map fst sel) ts @
              map (\<lambda>(row, col). ts ! row) (rejected maxd cm sel)"
    using assms(3) by (auto simp: matcher_result_def)
  have "mset (map fst m) + mset (elems ut) =
          mset (not_selected (map fst sel) ts) + mset (map (\<lambda>(row, col). ts ! row) sel)"
    unfolding m ut using accepted_rejected_mset[of "\<lambda>(row, col). ts ! row" maxd cm sel]
    by (simp add: ac_simps)
  also have "map (\<lambda>(row, col). ts ! row) sel = map ((!) ts) (map fst sel)"
    by (simp add: case_prod_unfold)
  finally show ?thesis
    using mset_positions[OF assms(2) in_range_rows[OF assms(1)]] by simp
qed

lemma matcher_result_detections:
  assumes "in_range cm ts ds sel" and "distinct (map snd sel)"
    and "matcher_result maxd cm ts ds sel = (m, ut, ud)"
  shows "mset (map snd m) + mset (elems ud) = mset ds"
proof -
  have m: "map snd m = map (\<lambda>(row, col). ds ! col) (accepted maxd cm sel)"
    using assms(3) by (auto simp: matcher_result_def comp_def case_prod_unfold)
  have ud: "elems ud = not_selected (map snd sel) ds @
              map (\<lambda>(row, col). ds ! col) (rejected maxd cm sel)"
    using assms(3) by (auto simp: matcher_result_def)
  have "mset (map snd m) + mset (elems ud) =
          mset (not_selected (map snd sel) ds) + mset (map (\<lambda>(row, col). ds ! col) sel)"
    unfolding m ud using accepted_rejected_mset[of "\<lambda>(row, col). ds ! col" maxd cm sel]
    by (simp add: ac_simps)
  also have "map (\<lambda>(row, col). ds ! col) sel = map ((!) ds) (map snd sel)"
    by (simp add: case_prod_unfold)
  finally show ?thesis
    using mset_positions[OF assms(2) in_range_cols[OF assms(1)]] by simp
qed

lemma nothing_to_match_cases:
  obtains (early) "nothing_to_match ti di = Inr True"
        | (solve) "nothing_to_match ti di = Inr False"
        | (raise) e where "nothing_to_match ti di = Inl e"
  by (cases "nothing_to_match ti di") auto

lemma min_cost_matching_partition:
  assumes ret: "min_cost_matching solver dm maxd trks dets tio dio = Inr (m, ut, ud)"
    and sol: "\<And>cm. one_to_one (solver cm)"
  shows "mset (map fst m) + mset (elems ut) = mset (elems (arange_default trks tio))"
    and "mset (map snd m) + mset (elems ud) = mset (elems (arange_default dets dio))"
proof -
  let ?ti = "arange_default trks tio" and ?di = "arange_default dets dio"
  have "mset (map fst m) + mset (elems ut) = mset (elems ?ti) \<and>
        mset (map snd m) + mset (elems ud) = mset (elems ?di)"
  proof (cases ?ti ?di rule: nothing_to_match_cases)
    case early
    then show ?thesis
      using ret by (simp add: min_cost_matching_early)
  next
    case solve
    then obtain cm0 where
      rng: "in_range (clamp maxd cm0) (elems ?ti) (elems ?di) (solver (clamp maxd cm0))" and
      r: "matcher_result maxd (clamp maxd cm0) (elems ?ti) (elems ?di) (solver (clamp maxd cm0))
            = (m, ut, ud)"
      using ret by (auto simp: min_cost_matching_solve)
    show ?thesis
      using matcher_result_tracks[OF rng _ r] matcher_result_detections[OF rng _ r]
        sol[of "clamp maxd cm0"]
      by (simp add: one_to_one_def)
  next
    case (raise e)
    then show ?thesis
      using ret by (simp add: min_cost_matching_error)
  qed
  then show "mset (map fst m) + mset (elems ut) = mset (elems ?ti)"
    and "mset (map snd m) + mset (elems ud) = mset (elems ?di)"
    by simp_all
qed

subsection \<open>The reference solver selects one-to-one\<close>

lemma injections_sound:
  "ys \<in> set (injections n xs) \<Longrightarrow> distinct xs \<Longrightarrow>
   distinct ys \<and> set ys \<subseteq> set xs \<and> length ys = n"
proof (induction n arbitrary: xs ys)
  case 0
  then show ?case by simp
next
  case (Suc n)
  from Suc.prems(1) obtain x ys' where
    x: "x \<in> set xs" and ys: "ys = x # ys'" and ys': "ys' \<in> set (injections n (removeAll x xs))"
    by auto
  have "distinct ys' \<and> set ys' \<subseteq> set (removeAll x xs) \<and> length ys' = n"
    using Suc.IH[OF ys'] Suc.prems(2) by (simp add: distinct_removeAll)
  then show ?case
    using x ys by auto
qed

lemma candidates_sound:
  assumes "sel \<in> set (candidates R C)"
  shows "assignment R C sel"
proof -
  from assms obtain rows cs where
    rows: "rows \<in> set (subseqs [0..<R])" and len: "length rows = min R C" and
    cs: "cs \<in> set (injections (length rows) [0..<C])" and sel: "sel = zip rows cs"
    by (auto simp: candidates_def)
  have c: "distinct cs" "set cs \<subseteq> {0..<C}" "length cs = length rows"
    using injections_sound[OF cs] by auto
  have r: "distinct rows" "set rows \<subseteq> {0..<R}"
    using rows subseqs_distinctD[OF rows] subseqs_powset[of "[0..<R]"] by auto
  have "map fst sel = rows" "map snd sel = cs"
    using c(3) by (simp_all add: sel)
  moreover have "\<forall>(row, col) \<in> set sel. row < R \<and> col < C"
  proof (clarify)
    fix row col assume "(row, col) \<in> set sel"
    then have "row \<in> set rows" "col \<in> set cs"
      unfolding sel by (auto dest: set_zip_leftD set_zip_rightD)
    then show "row < R \<and> col < C"
      using r(2) c(2) by auto
  qed
  ultimately show ?thesis
    using r(1) c(1) c(3) len
    by (simp add: assignment_def one_to_one_def list_all_iff sel)
qed

lemma linear_sum_assignment_candidate:
  "candidates (length cm) (ncols cm) \<noteq> [] \<Longrightarrow>
   linear_sum_assignment cm \<in> set (candidates (length cm) (ncols cm))"
proof -
  assume ne: "candidates (length cm) (ncols cm) \<noteq> []"
  then obtain c cs where eq: "candidates (length cm) (ncols cm) = c # cs"
    by (cases "candidates (length cm) (ncols cm)") auto
  have "arg_min_list (total_cost cm) (c # cs) \<in> set (c # cs)"
    by (rule arg_min_list_in) simp
  then show ?thesis
    by (simp only: linear_sum_assignment_def eq list.case)
qed

lemma linear_sum_assignment_one_to_one: "one_to_one (linear_sum_assignment cm)"
proof (cases "candidates (length cm) (ncols cm) = []")
  case True
  then show ?thesis
    by (simp add: linear_sum_assignment_def one_to_one_def)
next
  case False
  then show ?thesis
    using candidates_sound[OF linear_sum_assignment_candidate] by (simp add: assignment_def)
qed


subsection \<open>The outputs of the Matcher\<close>

text \<open>
  C9. The three outputs of \<^verbatim>\<open>min_cost_matching\<close>, called with two index subsets given as
  lists, partition the inputs: counted with multiplicity, the tracks of the matches together
  with the unmatched tracks are the track subset, and the detections of the matches together
  with the unmatched detections are the detection subset. For subsets without repeated
  indices every index therefore occurs exactly once in the outputs, and no other index
  occurs in them. The Assignment Solver is any function that never selects a row or a
  column twice.
\<close>

theorem min_cost_matching_partitions_inputs:
  assumes "\<forall>cm. one_to_one (solver cm)"
    and "min_cost_matching solver distance_metric max_distance trks dets
           (Some (PyList ts)) (Some (PyList ds)) = Inr (matches, unmatched_tracks, unmatched_detections)"
  shows "mset (map fst matches) + mset (elems unmatched_tracks) = mset ts \<and>
         mset (map snd matches) + mset (elems unmatched_detections) = mset ds \<and>
         set (map fst matches) \<union> set (elems unmatched_tracks) = set ts \<and>
         set (map snd matches) \<union> set (elems unmatched_detections) = set ds \<and>
         (distinct ts \<longrightarrow> distinct (map fst matches @ elems unmatched_tracks)) \<and>
         (distinct ds \<longrightarrow> distinct (map snd matches @ elems unmatched_detections))"
proof -
  have t: "mset (map fst matches @ elems unmatched_tracks) = mset ts"
    and d: "mset (map snd matches @ elems unmatched_detections) = mset ds"
    using min_cost_matching_partition[OF assms(2)] assms(1)
    by (simp_all add: arange_default_def)
  have "set (map fst matches @ elems unmatched_tracks) = set ts"
    and "set (map snd matches @ elems unmatched_detections) = set ds"
    using t d mset_eq_setD by blast+
  moreover have "distinct ts \<longrightarrow> distinct (map fst matches @ elems unmatched_tracks)"
    and "distinct ds \<longrightarrow> distinct (map snd matches @ elems unmatched_detections)"
    using t d mset_eq_imp_distinct_iff by blast+
  ultimately show ?thesis
    using t d by simp
qed

theorem min_cost_matching_partitions_inputs_witness:
  "min_cost_matching linear_sum_assignment (\<lambda>_ _ _ _. Inr [[0, 6 / 10], [6 / 10, 2]]) (7 / 10)
       [] [] (Some (PyList [4, 7])) (Some (PyList [2, 5])) = Inr ([(4, 2)], PyList [7], PyList [5]) \<and>
   mset (map fst [(4, 2)]) + mset (elems (PyList [7])) = mset [4, 7 :: nat] \<and>
   mset (map snd [(4, 2)]) + mset (elems (PyList [5])) = mset [2, 5 :: nat] \<and>
   distinct (map fst [(4 :: nat, 2 :: nat)] @ elems (PyList [7])) \<and>
   distinct (map snd [(4 :: nat, 2 :: nat)] @ elems (PyList [5]))"
proof -
  have ret: "min_cost_matching linear_sum_assignment (\<lambda>_ _ _ _. Inr [[0, 6 / 10], [6 / 10, 2]])
       (7 / 10) [] [] (Some (PyList [4, 7])) (Some (PyList [2, 5]))
       = Inr ([(4, 2)], PyList [7], PyList [5])"
    by code_simp
  have sol: "\<forall>cm. one_to_one (linear_sum_assignment cm)"
    by (simp add: linear_sum_assignment_one_to_one)
  show ?thesis
    using min_cost_matching_partitions_inputs[OF sol ret] ret by simp
qed

lemma nothing_to_match_lists [simp]:
  "nothing_to_match (PyList ts) (PyList ds) = Inr (ts = [] \<or> ds = [])"
  by (simp add: nothing_to_match_def)





text \<open>
  C3. With both subsets omitted and one track and one detection, the defaults are the
  arrays \<^verbatim>\<open>array([0])\<close>, whose truth value is that of their element \<open>0\<close>: the call returns
  "nothing to match" for two non-empty subsets, whatever the cost function and the solver
  are, and even when the cost function would raise.
\<close>

theorem min_cost_matching_default_one_track:
  "min_cost_matching solver distance_metric max_distance [t] [d] None None =
     Inr ([], NdArray [0], NdArray [0])"
  by (simp add: min_cost_matching_def arange_default_def nothing_to_match_def Let_def)

lemma min_cost_matching_default_raises:
  "2 \<le> length trks \<Longrightarrow>
   min_cost_matching solver distance_metric max_distance trks dets None dio = Inl ValueError"
proof -
  assume "2 \<le> length trks"
  then have "0 < length trks" "Suc 0 < length trks"
    by linarith+
  then have "[0..<length trks] = 0 # Suc 0 # [Suc (Suc 0)..<length trks]"
    using upt_conv_Cons[of 0 "length trks"] upt_conv_Cons[of "Suc 0" "length trks"]
    by simp
  then show ?thesis
    by (simp add: min_cost_matching_def arange_default_def nothing_to_match_def Let_def)
qed

lemma min_cost_matching_lists_early:
  "min_cost_matching solver distance_metric max_distance trks dets (Some (PyList ts)) (Some (PyList ds))
     = Inr ([], PyList ts, PyList ds)" if "ts = [] \<or> ds = []"
  using that min_cost_matching_early[of trks "Some (PyList ts)" dets "Some (PyList ds)"]
  by (simp add: arange_default_def)

lemma min_cost_matching_lists_calls_metric:
  "min_cost_matching solver (\<lambda>_ _ _ _. Inl e) max_distance trks dets (Some (PyList ts)) (Some (PyList ds))
     = Inl e" if "ts \<noteq> []" "ds \<noteq> []"
  using that by (simp add: min_cost_matching_def arange_default_def Let_def)

subsection \<open>Gating\<close>

lemma comprehension_item_Inr_iff:
  "comprehension (\<lambda>i. bnd (item xs i) (\<lambda>x. Inr (f x))) idx = Inr ys \<longleftrightarrow>
     (\<forall>i \<in> set idx. i < length xs) \<and> ys = map (\<lambda>i. f (xs ! i)) idx"
  by (induction idx arbitrary: ys) (auto simp: bnd_Inr_iff item_Inr_iff)

lemma mask_assign_Inr_iff:
  "mask_assign cm row flags v = Inr cm' \<longleftrightarrow>
     row < length cm \<and> length flags = length (cm ! row) \<and>
     cm' = cm[row := map (\<lambda>(b, c). if b then v else c) (zip flags (cm ! row))]"
  by (auto simp: mask_assign_def)


lemma mask_of_distances:
  "map (\<lambda>(b, c). if b then v else c) (zip (map (\<lambda>g. g > thr) gs) r) =
   map (\<lambda>(g, c). if g > thr then v else c) (zip gs r)"
  by (simp add: zip_map1 case_prod_unfold comp_def)

lemma gate_rows_Inr:
  assumes "gate_rows gd thr meas op gc trks rows cm = Inr cm'" and "distinct (map fst rows)"
  shows "length cm' = length cm \<and>
         (\<forall>(row, k) \<in> set rows. k < length trks \<and> row < length cm \<and>
            length (gd (mean (trks ! k)) (covariance (trks ! k)) meas op) = length (cm ! row)) \<and>
         (\<forall>r < length cm. cm' ! r =
            (case map_of rows r of None \<Rightarrow> cm ! r
             | Some k \<Rightarrow> gated_row gd thr meas op gc (trks ! k) (cm ! r)))"
  using assms
proof (induction rows arbitrary: cm)
  case Nil
  then show ?case by simp
next
  case (Cons p rows)
  obtain row k where p: "p = (row, k)" by (cases p)
  let ?g = "gd (mean (trks ! k)) (covariance (trks ! k)) meas op"
  let ?cm1 = "cm[row := gated_row gd thr meas op gc (trks ! k) (cm ! row)]"
  from Cons.prems(1) have k: "k < length trks" and row: "row < length cm"
    and len: "length ?g = length (cm ! row)"
    and rest: "gate_rows gd thr meas op gc trks rows ?cm1 = Inr cm'"
    unfolding p
    by (auto simp: bnd_Inr_iff item_Inr_iff mask_assign_Inr_iff Let_def gated_row_def
        mask_of_distances)
  have d: "distinct (map fst rows)" and nin: "row \<notin> fst ` set rows"
    using Cons.prems(2) by (auto simp: p)
  note IH = Cons.IH[OF rest d]
  have 1: "length cm' = length cm" using IH by simp
  have 2: "\<forall>(row', k') \<in> set (p # rows). k' < length trks \<and> row' < length cm \<and>
            length (gd (mean (trks ! k')) (covariance (trks ! k')) meas op) = length (cm ! row')"
  proof (clarify)
    fix row' k' assume m: "(row', k') \<in> set (p # rows)"
    show "k' < length trks \<and> row' < length cm \<and>
            length (gd (mean (trks ! k')) (covariance (trks ! k')) meas op) = length (cm ! row')"
    proof (cases "(row', k') = p")
      case True
      then show ?thesis using k row len p by simp
    next
      case False
      then have mem: "(row', k') \<in> set rows" using m by simp
      then have "row' \<noteq> row" using nin by force
      then show ?thesis using IH mem by auto
    qed
  qed
  have 3: "\<forall>r < length cm. cm' ! r =
            (case map_of (p # rows) r of None \<Rightarrow> cm ! r
             | Some k \<Rightarrow> gated_row gd thr meas op gc (trks ! k) (cm ! r))"
  proof (intro allI impI)
    fix r assume r: "r < length cm"
    show "cm' ! r = (case map_of (p # rows) r of None \<Rightarrow> cm ! r
             | Some k \<Rightarrow> gated_row gd thr meas op gc (trks ! k) (cm ! r))"
    proof (cases "r = row")
      case True
      have "map_of rows row = None" using nin by (simp add: map_of_eq_None_iff)
      then show ?thesis using IH r True by (simp add: p)
    next
      case False
      then have "?cm1 ! r = cm ! r" by simp
      then show ?thesis using IH r False by (simp add: p split: option.splits)
    qed
  qed
  show ?case using 1 2 3 by blast
qed

lemma map_of_enumerate:
  "map_of (enumerate 0 xs) r = (if r < length xs then Some (xs ! r) else None)"
proof -
  have "map_of (enumerate 0 xs) r = map_of (zip [0..<length xs] xs) r"
    by (simp add: enumerate_eq_zip)
  also have "\<dots> = (if r < length xs then Some (xs ! r) else None)"
    using map_of_zip_nth[of "[0..<length xs]" xs r]
    by (auto simp: map_of_eq_None_iff dest: set_zip_leftD)
  finally show ?thesis .
qed

lemma chi_square_dim:
  "(case chi_square (if only_position then 2 else 4) of None \<Rightarrow> Inl KeyError | Some t \<Rightarrow> Inr t)
     = Inr (if only_position then 59915 / 10000 else 94877 / 10000)"
  by (simp add: chi_square_def)

text \<open>
  C6. When \<^verbatim>\<open>get_cost_matrix\<close> returns with the default sentinel \<^verbatim>\<open>INFTY_COST\<close>, the
  returned matrix has the shape of the input matrix; the entry of row \<open>row\<close> (the track at
  position \<open>row\<close> of the track subset) and column \<open>col\<close> (the detection at position \<open>col\<close> of
  the detection subset) is \<open>1e5\<close> when the gating distance of that pair exceeds the
  chi-square critical value (5.9915 for 2 degrees of freedom when \<open>only_position\<close> is set,
  9.4877 for 4 otherwise), and is the input entry otherwise.
\<close>

theorem get_cost_matrix_gates:
  assumes "get_cost_matrix gd cost_matrix trks dets track_indices detection_indices
             INFTY_COST only_position = Inr gated"
  shows "length gated = length cost_matrix \<and>
         (\<forall>row < length cost_matrix. length (gated ! row) = length (cost_matrix ! row)) \<and>
         (\<forall>row < length cost_matrix. \<forall>col < length (cost_matrix ! row).
            gated ! row ! col =
              (if row < length (elems track_indices) \<and>
                  gd (mean (trks ! (elems track_indices ! row)))
                     (covariance (trks ! (elems track_indices ! row)))
                     (map (\<lambda>i. to_xyah (dets ! i)) (elems detection_indices)) only_position ! col
                    > (if only_position then 59915 / 10000 else 94877 / 10000)
               then 100000 else cost_matrix ! row ! col))"
proof -
  define thr :: real where "thr = (if only_position then 59915 / 10000 else 94877 / 10000)"
  define meas where "meas = map (\<lambda>i. to_xyah (dets ! i)) (elems detection_indices)"
  define ts where "ts = elems track_indices"
  have rows: "gate_rows gd thr meas only_position INFTY_COST trks (enumerate 0 ts) cost_matrix
                = Inr gated"
    using assms
    unfolding get_cost_matrix_def Let_def chi_square_dim thr_def meas_def ts_def
    by (auto simp: bnd_Inr_iff comprehension_item_Inr_iff)
  have d: "distinct (map fst (enumerate 0 ts))"
    by simp
  note G = gate_rows_Inr[OF rows d]
  have len: "length gated = length cost_matrix"
    using G by simp
  have gd_len: "length (gd (mean (trks ! (ts ! row))) (covariance (trks ! (ts ! row)))
                  meas only_position) = length (cost_matrix ! row)"
    if "row < length ts" for row
  proof -
    have "(row, ts ! row) \<in> set (enumerate 0 ts)"
      using that by (simp add: in_set_enumerate_eq)
    then show ?thesis using G by blast
  qed
  have row_eq: "gated ! row =
      (if row < length ts
       then gated_row gd thr meas only_position INFTY_COST (trks ! (ts ! row)) (cost_matrix ! row)
       else cost_matrix ! row)"
    if "row < length cost_matrix" for row
    using G that by (simp add: map_of_enumerate)
  have shape: "length (gated ! row) = length (cost_matrix ! row)"
    if "row < length cost_matrix" for row
  proof (cases "row < length ts")
    case True
    then show ?thesis
      using row_eq[OF that] gd_len[OF True] by (simp add: gated_row_def)
  next
    case False
    then show ?thesis using row_eq[OF that] by simp
  qed
  have entries: "gated ! row ! col =
              (if row < length ts \<and>
                  gd (mean (trks ! (ts ! row))) (covariance (trks ! (ts ! row)))
                     meas only_position ! col > thr
               then 100000 else cost_matrix ! row ! col)"
    if r: "row < length cost_matrix" and c: "col < length (cost_matrix ! row)" for row col
  proof (cases "row < length ts")
    case True
    show ?thesis
      using gd_len[OF True] c row_eq[OF r] True
      by (simp add: INFTY_COST_def gated_row_def)
  next
    case False
    then show ?thesis using row_eq[OF r] by simp
  qed
  show ?thesis
    using len shape entries unfolding thr_def meas_def ts_def by blast
qed

theorem get_cost_matrix_gates_witness:
  "get_cost_matrix example_gating [[1 / 10, 2 / 10], [3 / 10, 4 / 10]]
     [example_track 1 Confirmed 1 0, example_track 2 Confirmed 1 18]
     [example_detection 1, example_detection 20] (PyList [0, 1]) (PyList [0, 1]) INFTY_COST False
     = Inr [[1 / 10, 100000], [100000, 4 / 10]] \<and>
   length [[1 / 10, 100000], [100000, 4 / 10 :: real]]
     = length [[1 / 10, 2 / 10], [3 / 10, 4 / 10 :: real]] \<and>
   [[1 / 10, 100000], [100000, 4 / 10 :: real]] ! 0 ! 1 = 100000 \<and>
   [[1 / 10, 100000], [100000, 4 / 10 :: real]] ! 0 ! 0
     = [[1 / 10, 2 / 10], [3 / 10, 4 / 10 :: real]] ! 0 ! 0"
proof -
  have ret: "get_cost_matrix example_gating [[1 / 10, 2 / 10], [3 / 10, 4 / 10]]
     [example_track 1 Confirmed 1 0, example_track 2 Confirmed 1 18]
     [example_detection 1, example_detection 20] (PyList [0, 1]) (PyList [0, 1]) INFTY_COST False
     = Inr [[1 / 10, 100000], [100000, 4 / 10]]"
    by code_simp
  show ?thesis
    using get_cost_matrix_gates[OF ret] ret by simp
qed

subsection \<open>The matching cascade\<close>

lemma level_loop_Nil: "level_loop solver dm maxd trks dets ts [] p []"
  by (simp add: level_loop_def)

lemma level_loop_Stopped:
  "elems p = [] \<Longrightarrow> level_loop solver dm maxd trks dets ts (level # levels) p [Stopped level]"
  by (simp add: level_loop_def)

lemma level_loop_Cons:
  assumes "level_step solver dm maxd trks dets ts level p (evs = []) e"
    and "level_loop solver dm maxd trks dets ts levels (pool_after p [e]) evs"
    and "\<forall>l. e \<noteq> Stopped l"
  shows "level_loop solver dm maxd trks dets ts (level # levels) p (e # evs)"
proof -
  have pool: "pool_after p (e # xs) = pool_after (pool_after p [e]) xs" for xs
    by (cases e) simp_all
  have step: "level_step solver dm maxd trks dets ts ((level # levels) ! i)
                (pool_after p (take i (e # evs))) (Suc i = length (e # evs)) ((e # evs) ! i)"
    if "i < length (e # evs)" for i
  proof (cases i)
    case 0
    then show ?thesis using assms(1) by (simp add: length_0_conv[symmetric] del: length_0_conv)
  next
    case (Suc j)
    then have "j < length evs" using that by simp
    then show ?thesis
      using assms(2) Suc pool[of "take j evs"] by (simp add: level_loop_def)
  qed
  have "length (e # evs) \<le> length (level # levels)"
    using assms(2) by (simp add: level_loop_def)
  moreover have "length (e # evs) < length (level # levels) \<longrightarrow>
                 e # evs \<noteq> [] \<and> (\<exists>l. last (e # evs) = Stopped l)"
    using assms(2) by (auto simp: level_loop_def)
  ultimately show ?thesis
    using step unfolding level_loop_def by blast
qed

lemma select_tracks_Inr_iff:
  "select_tracks trks p idx = Inr ks \<longleftrightarrow>
     (\<forall>k \<in> set idx. k < length trks) \<and> ks = filter (\<lambda>k. p (trks ! k)) idx"
  by (auto simp: select_tracks_def list_all_iff)

lemma cascade_levels_trace:
  assumes "cascade_levels solver dm maxd trks dets ti levels (m0, p0, tr0) = Inr (m, ud, tr)"
  shows "\<exists>evs. tr = tr0 @ evs \<and>
           level_loop solver dm maxd trks dets (elems ti) levels p0 evs \<and>
           m = m0 @ concat (map matches_of evs) \<and> ud = pool_after p0 evs"
  using assms
proof (induction levels arbitrary: m0 p0 tr0)
  case Nil
  then show ?case by (simp add: level_loop_Nil)
next
  case (Cons level levels)
  show ?case
  proof (cases "elems p0 = []")
    case True
    then have "tr = tr0 @ [Stopped level]" "m = m0" "ud = p0"
      using Cons.prems by simp_all
    then show ?thesis
      using level_loop_Stopped[OF True] by force
  next
    case False
    then obtain tsl where
      sel: "select_tracks trks (\<lambda>t. time_since_update t = 1 + level) (elems ti) = Inr tsl"
      using Cons.prems by (auto simp: bnd_Inr_iff)
    show ?thesis
    proof (cases "tsl = []")
      case True
      then have "cascade_levels solver dm maxd trks dets ti levels
                   (m0, p0, tr0 @ [Skipped level]) = Inr (m, ud, tr)"
        using Cons.prems False sel by simp
      from Cons.IH[OF this] obtain evs where
        evs: "tr = (tr0 @ [Skipped level]) @ evs"
          "level_loop solver dm maxd trks dets (elems ti) levels p0 evs"
          "m = m0 @ concat (map matches_of evs)" "ud = pool_after p0 evs"
        by blast
      have "level_loop solver dm maxd trks dets (elems ti) (level # levels) p0
              (Skipped level # evs)"
        using evs(2) False sel True by (intro level_loop_Cons) simp_all
      then show ?thesis
        using evs by (intro exI[of _ "Skipped level # evs"]) simp
    next
      case ne: False
      then obtain ml ut udl where
        mcm: "min_cost_matching solver dm maxd trks dets (Some (PyList tsl)) (Some p0)
                = Inr (ml, ut, udl)" and
        rest: "cascade_levels solver dm maxd trks dets ti levels
                 (m0 @ ml, udl, tr0 @ [Ran level tsl p0 ml udl]) = Inr (m, ud, tr)"
        using Cons.prems False sel by (auto simp: bnd_Inr_iff)
      from Cons.IH[OF rest] obtain evs where
        evs: "tr = (tr0 @ [Ran level tsl p0 ml udl]) @ evs"
          "level_loop solver dm maxd trks dets (elems ti) levels udl evs"
          "m = (m0 @ ml) @ concat (map matches_of evs)" "ud = pool_after udl evs"
        by blast
      have "level_loop solver dm maxd trks dets (elems ti) (level # levels) p0
              (Ran level tsl p0 ml udl # evs)"
        using evs(2) False sel ne mcm by (intro level_loop_Cons) auto
      then show ?thesis
        using evs by (intro exI[of _ "Ran level tsl p0 ml udl # evs"]) simp
    qed
  qed
qed

lemma list_of_set_props [simp]:
  "finite A \<Longrightarrow> set (list_of_set A) = A" "distinct (list_of_set A)"
  by (simp_all add: list_of_set_def)

lemma cascade_run_Inr_iff:
  "cascade_run solver dm maxd depth trks dets tio dio = Inr (m, ut, ud, tr) \<longleftrightarrow>
     cascade_levels solver dm maxd trks dets (range_default trks tio) [0..<depth]
       ([], range_default dets dio, []) = Inr (m, ud, tr) \<and>
     ut = list_of_set (set (elems (range_default trks tio)) - set (map fst m))"
  by (auto simp: cascade_run_def Let_def bnd_Inr_iff)

lemma matching_cascade_Inr_iff:
  "matching_cascade solver dm maxd depth trks dets tio dio = Inr (m, ut, ud) \<longleftrightarrow>
     (\<exists>tr. cascade_run solver dm maxd depth trks dets tio dio = Inr (m, ut, ud, tr))"
  by (auto simp: matching_cascade_def bnd_Inr_iff)

lemma cascade_trace_Inr_iff:
  "cascade_trace solver dm maxd depth trks dets tio dio = Inr tr \<longleftrightarrow>
     (\<exists>m ut ud. cascade_run solver dm maxd depth trks dets tio dio = Inr (m, ut, ud, tr))"
  by (auto simp: cascade_trace_def bnd_Inr_iff)

lemma cascade_run_trace:
  assumes "cascade_run solver dm maxd depth trks dets tio dio = Inr (m, ut, ud, tr)"
  shows "level_loop solver dm maxd trks dets (elems (range_default trks tio)) [0..<depth]
           (range_default dets dio) tr"
    and "m = concat (map matches_of tr)"
    and "ud = pool_after (range_default dets dio) tr"
    and "set ut = set (elems (range_default trks tio)) - set (map fst m)"
    and "distinct ut"
proof -
  from assms have lv: "cascade_levels solver dm maxd trks dets (range_default trks tio) [0..<depth]
       ([], range_default dets dio, []) = Inr (m, ud, tr)"
    and ut: "ut = list_of_set (set (elems (range_default trks tio)) - set (map fst m))"
    by (simp_all add: cascade_run_Inr_iff)
  from cascade_levels_trace[OF lv]
  show "level_loop solver dm maxd trks dets (elems (range_default trks tio)) [0..<depth]
           (range_default dets dio) tr"
    and "m = concat (map matches_of tr)"
    and "ud = pool_after (range_default dets dio) tr"
    by auto
  show "set ut = set (elems (range_default trks tio)) - set (map fst m)" and "distinct ut"
    by (simp_all add: ut)
qed

text \<open>
  C5. A run of \<^verbatim>\<open>matching_cascade\<close> that returns has a trace with one event per level it
  reached, for the levels \<open>0, 1, \<dots>\<close> in order and at most \<open>cascade_depth\<close> of them. The event
  of level \<open>i\<close> is what \<open>level_step\<close> says for the pool left by the events before it: the
  Matcher was called with exactly the tracks of the input subset whose
  \<open>time_since_update\<close> is \<open>i + 1\<close> (and there is such a track) and with that pool; or the
  level was skipped, because there is no such track, and the pool stayed as it was; or the
  loop stopped, as its last event, because the pool was empty. A loop that ends before
  \<open>cascade_depth\<close> levels ended by stopping. The returned matches are those of the Matcher
  calls, the returned unmatched detections are the last pool, and the returned unmatched
  tracks are, without repetition, the input track subset minus the tracks of the matches.
\<close>

theorem matching_cascade_level_loop:
  assumes "matching_cascade solver distance_metric max_distance cascade_depth trks dets tio dio =
             Inr (matches, unmatched_tracks, unmatched_detections)"
  shows "\<exists>trace.
     cascade_trace solver distance_metric max_distance cascade_depth trks dets tio dio = Inr trace \<and>
     length trace \<le> cascade_depth \<and>
     (\<forall>i < length trace.
        level_step solver distance_metric max_distance trks dets (elems (range_default trks tio)) i
          (pool_after (range_default dets dio) (take i trace)) (Suc i = length trace) (trace ! i)) \<and>
     (\<forall>level tsl pool ml ud. Ran level tsl pool ml ud \<in> set trace \<longrightarrow>
        tsl = filter (\<lambda>k. time_since_update (trks ! k) = level + 1)
                (elems (range_default trks tio))) \<and>
     (length trace < cascade_depth \<longrightarrow> trace \<noteq> [] \<and> (\<exists>l. last trace = Stopped l)) \<and>
     matches = concat (map matches_of trace) \<and>
     unmatched_detections = pool_after (range_default dets dio) trace \<and>
     set unmatched_tracks = set (elems (range_default trks tio)) - set (map fst matches) \<and>
     distinct unmatched_tracks"
proof -
  from assms obtain trace where
    run: "cascade_run solver distance_metric max_distance cascade_depth trks dets tio dio =
            Inr (matches, unmatched_tracks, unmatched_detections, trace)"
    by (auto simp: matching_cascade_Inr_iff)
  note T = cascade_run_trace[OF run]
  have tr: "cascade_trace solver distance_metric max_distance cascade_depth trks dets tio dio
              = Inr trace"
    using run by (auto simp: cascade_trace_Inr_iff)
  have len: "length trace \<le> cascade_depth"
    using T(1) by (simp add: level_loop_def)
  have steps: "\<forall>i < length trace.
        level_step solver distance_metric max_distance trks dets (elems (range_default trks tio)) i
          (pool_after (range_default dets dio) (take i trace)) (Suc i = length trace) (trace ! i)"
  proof (intro allI impI)
    fix i assume i: "i < length trace"
    then have "[0..<cascade_depth] ! i = i" using len by simp
    then show "level_step solver distance_metric max_distance trks dets
          (elems (range_default trks tio)) i
          (pool_after (range_default dets dio) (take i trace)) (Suc i = length trace) (trace ! i)"
      using T(1) i unfolding level_loop_def by metis
  qed
  have sub: "\<forall>level tsl pool ml ud. Ran level tsl pool ml ud \<in> set trace \<longrightarrow>
        tsl = filter (\<lambda>k. time_since_update (trks ! k) = level + 1)
                (elems (range_default trks tio))"
  proof (intro allI impI)
    fix level tsl pool ml ud assume "Ran level tsl pool ml ud \<in> set trace"
    then obtain i where i: "i < length trace" "trace ! i = Ran level tsl pool ml ud"
      by (auto simp: in_set_conv_nth)
    then show "tsl = filter (\<lambda>k. time_since_update (trks ! k) = level + 1)
                (elems (range_default trks tio))"
      using steps by (auto simp: select_tracks_Inr_iff)
  qed
  have stop: "length trace < cascade_depth \<longrightarrow> trace \<noteq> [] \<and> (\<exists>l. last trace = Stopped l)"
    using T(1) by (simp add: level_loop_def)
  show ?thesis
    using tr len steps sub stop T(2-5) by blast
qed

theorem matching_cascade_level_loop_witness:
  "matching_cascade linear_sum_assignment example_cost (2 / 10) 3
     [example_track 1 Confirmed 1 0, example_track 2 Confirmed 3 5, example_track 3 Confirmed 1 9]
     [example_detection (5 / 10), example_detection (92 / 10), example_detection (51 / 10),
      example_detection 30] None None
     = Inr ([(0, 0), (2, 1), (1, 2)], [], PyList [3]) \<and>
   cascade_trace linear_sum_assignment example_cost (2 / 10) 3
     [example_track 1 Confirmed 1 0, example_track 2 Confirmed 3 5, example_track 3 Confirmed 1 9]
     [example_detection (5 / 10), example_detection (92 / 10), example_detection (51 / 10),
      example_detection 30] None None
     = Inr [Ran 0 [0, 2] (PyList [0, 1, 2, 3]) [(0, 0), (2, 1)] (PyList [2, 3]), Skipped 1,
            Ran 2 [1] (PyList [2, 3]) [(1, 2)] (PyList [3])] \<and>
   (\<exists>trace. cascade_trace linear_sum_assignment example_cost (2 / 10) 3
     [example_track 1 Confirmed 1 0, example_track 2 Confirmed 3 5, example_track 3 Confirmed 1 9]
     [example_detection (5 / 10), example_detection (92 / 10), example_detection (51 / 10),
      example_detection 30] None None = Inr trace \<and>
     length trace \<le> 3 \<and>
     [(0, 0), (2, 1), (1, 2)] = concat (map matches_of trace) \<and>
     PyList [3] = pool_after (range_default
       [example_detection (5 / 10), example_detection (92 / 10), example_detection (51 / 10),
        example_detection 30] None) trace)"
proof -
  have ret: "matching_cascade linear_sum_assignment example_cost (2 / 10) 3
     [example_track 1 Confirmed 1 0, example_track 2 Confirmed 3 5, example_track 3 Confirmed 1 9]
     [example_detection (5 / 10), example_detection (92 / 10), example_detection (51 / 10),
      example_detection 30] None None
     = Inr ([(0, 0), (2, 1), (1, 2)], [], PyList [3])"
    by code_simp
  have tr: "cascade_trace linear_sum_assignment example_cost (2 / 10) 3
     [example_track 1 Confirmed 1 0, example_track 2 Confirmed 3 5, example_track 3 Confirmed 1 9]
     [example_detection (5 / 10), example_detection (92 / 10), example_detection (51 / 10),
      example_detection 30] None None
     = Inr [Ran 0 [0, 2] (PyList [0, 1, 2, 3]) [(0, 0), (2, 1)] (PyList [2, 3]), Skipped 1,
            Ran 2 [1] (PyList [2, 3]) [(1, 2)] (PyList [3])]"
    by code_simp
  from matching_cascade_level_loop[OF ret] ret tr show ?thesis
    by blast
qed

lemma pool_after_append: "pool_after p (xs @ ys) = pool_after (pool_after p xs) ys"
  by (induction p xs rule: pool_after.induct) simp_all


lemma level_loop_matcher_calls:
  "level_loop solver dm maxd trks dets ts levels p evs \<Longrightarrow>
   matcher_calls solver dm maxd trks dets p evs"
  unfolding level_loop_def matcher_calls_def
proof (intro allI impI)
  fix i l tsl pool ml ud
  assume a: "length evs \<le> length levels \<and>
       (\<forall>i<length evs. level_step solver dm maxd trks dets ts (levels ! i)
            (pool_after p (take i evs)) (Suc i = length evs) (evs ! i)) \<and>
       (length evs < length levels \<longrightarrow> evs \<noteq> [] \<and> (\<exists>l. last evs = Stopped l))"
    and i: "i < length evs" and e: "evs ! i = Ran l tsl pool ml ud"
  then have "level_step solver dm maxd trks dets ts (levels ! i)
            (pool_after p (take i evs)) (Suc i = length evs) (Ran l tsl pool ml ud)"
    by metis
  then show "pool = pool_after p (take i evs) \<and>
        (\<exists>ut. min_cost_matching solver dm maxd trks dets (Some (PyList tsl)) (Some pool)
                = Inr (ml, ut, ud))"
    by simp
qed

lemma matcher_calls_take:
  "matcher_calls solver dm maxd trks dets p evs \<Longrightarrow>
   matcher_calls solver dm maxd trks dets p (take j evs)"
  unfolding matcher_calls_def
proof (intro allI impI)
  fix i l tsl pool ml ud
  assume a: "\<forall>i<length evs. \<forall>l tsl pool ml ud. evs ! i = Ran l tsl pool ml ud \<longrightarrow>
          pool = pool_after p (take i evs) \<and>
          (\<exists>ut. min_cost_matching solver dm maxd trks dets (Some (PyList tsl)) (Some pool)
                = Inr (ml, ut, ud))"
    and i: "i < length (take j evs)" and e: "take j evs ! i = Ran l tsl pool ml ud"
  have "i < length evs" "i < j" using i by simp_all
  then have "evs ! i = Ran l tsl pool ml ud" "take i (take j evs) = take i evs"
    using e by (simp_all add: min_def)
  then show "pool = pool_after p (take i (take j evs)) \<and>
          (\<exists>ut. min_cost_matching solver dm maxd trks dets (Some (PyList tsl)) (Some pool)
                = Inr (ml, ut, ud))"
    using a \<open>i < length evs\<close> by simp
qed

lemma matcher_calls_detections:
  assumes "matcher_calls solver dm maxd trks dets p evs" and "\<forall>cm. one_to_one (solver cm)"
  shows "mset (map snd (concat (map matches_of evs))) + mset (elems (pool_after p evs))
           = mset (elems p)"
  using assms(1)
proof (induction evs rule: rev_induct)
  case Nil
  then show ?case by simp
next
  case (snoc e evs)
  have pre: "matcher_calls solver dm maxd trks dets p evs"
    using matcher_calls_take[OF snoc.prems, of "length evs"] by simp
  note IH = snoc.IH[OF pre]
  show ?case
  proof (cases e)
    case (Ran l tsl pool ml ud)
    have "(evs @ [e]) ! length evs = Ran l tsl pool ml ud"
      by (simp add: Ran)
    then obtain ut where pool: "pool = pool_after p evs" and
      mcm: "min_cost_matching solver dm maxd trks dets (Some (PyList tsl)) (Some pool)
              = Inr (ml, ut, ud)"
      using snoc.prems unfolding matcher_calls_def
      by (metis append_eq_conv_conj length_append_singleton lessI)
    have "mset (map snd ml) + mset (elems ud) = mset (elems (pool_after p evs))"
      using min_cost_matching_partition(2)[OF mcm] assms(2) by (simp add: arange_default_def pool)
    then have "mset (map snd (concat (map matches_of evs))) +
               (mset (map snd ml) + mset (elems ud)) = mset (elems p)"
      using IH by simp
    then show ?thesis
      by (simp add: pool_after_append Ran ac_simps)
  qed (use IH in \<open>simp_all add: pool_after_append\<close>)
qed

lemma level_loop_levels:
  assumes "level_loop solver dm maxd trks dets ts [0..<depth] p evs" and "i < length evs"
  shows "level_of (evs ! i) = i"
proof -
  have len: "length evs \<le> depth"
    using assms(1) by (simp add: level_loop_def)
  have "level_step solver dm maxd trks dets ts ([0..<depth] ! i) (pool_after p (take i evs))
          (Suc i = length evs) (evs ! i)"
    using assms unfolding level_loop_def by metis
  moreover have "[0..<depth] ! i = i"
    using assms(2) len by simp
  ultimately show ?thesis
    by (cases "evs ! i") simp_all
qed

lemma matches_of_subset:
  assumes "i < j" and "i < length evs" and "evs ! i = Ran l tsl pool ml ud"
  shows "set ml \<subseteq> set (concat (map matches_of (take j evs)))"
proof -
  have "evs ! i \<in> set (take j evs)"
    using assms(1,2) by (metis in_set_conv_nth length_take min_less_iff_conj nth_take)
  then have "matches_of (evs ! i) \<in> set (map matches_of (take j evs))"
    by simp
  then show ?thesis
    using assms(3) by auto
qed

lemma matcher_calls_disjoint:
  assumes calls: "matcher_calls solver dm maxd trks dets p evs"
    and sol: "\<forall>cm. one_to_one (solver cm)" and dist: "distinct (elems p)"
    and ij: "i < j" "i < length evs" and ev: "evs ! i = Ran l tsl pool ml ud"
  shows "set (map snd ml) \<inter> set (elems (pool_after p (take j evs))) = {}"
proof -
  let ?ms = "concat (map matches_of (take j evs))"
  have "mset (map snd ?ms) + mset (elems (pool_after p (take j evs))) = mset (elems p)"
    using matcher_calls_detections[OF matcher_calls_take[OF calls] sol] .
  then have "mset (map snd ?ms @ elems (pool_after p (take j evs))) = mset (elems p)"
    by simp
  then have "distinct (map snd ?ms @ elems (pool_after p (take j evs)))"
    using dist mset_eq_imp_distinct_iff by blast
  then have "set (map snd ?ms) \<inter> set (elems (pool_after p (take j evs))) = {}"
    by simp
  moreover have "set (map snd ml) \<subseteq> set (map snd ?ms)"
    using matches_of_subset[OF ij ev] by auto
  ultimately show ?thesis by blast
qed

text \<open>
  C4. For a detection subset without repeated indices and an Assignment Solver that never
  selects a row or a column twice: the detections matched by the Matcher call of a level
  \<open>L\<close> are not in the pool passed to the Matcher call of any level \<open>L' > L\<close>; and the
  detections of the returned matches together with the returned unmatched detections are
  the input detection subset, each index occurring exactly once.
\<close>

theorem matching_cascade_detections:
  assumes "matching_cascade solver distance_metric max_distance cascade_depth trks dets tio dio =
             Inr (matches, unmatched_tracks, unmatched_detections)"
    and "\<forall>cm. one_to_one (solver cm)"
    and "distinct (elems (range_default dets dio))"
  shows "\<exists>trace.
     cascade_trace solver distance_metric max_distance cascade_depth trks dets tio dio = Inr trace \<and>
     (\<forall>L tsl pool ml ud L' tsl' pool' ml' ud'.
        Ran L tsl pool ml ud \<in> set trace \<and> Ran L' tsl' pool' ml' ud' \<in> set trace \<and> L < L' \<longrightarrow>
        set (map snd ml) \<inter> set (elems pool') = {}) \<and>
     mset (map snd matches) + mset (elems unmatched_detections)
       = mset (elems (range_default dets dio)) \<and>
     distinct (map snd matches @ elems unmatched_detections) \<and>
     set (map snd matches) \<union> set (elems unmatched_detections)
       = set (elems (range_default dets dio))"
proof -
  let ?di = "range_default dets dio"
  from assms(1) obtain trace where
    run: "cascade_run solver distance_metric max_distance cascade_depth trks dets tio dio =
            Inr (matches, unmatched_tracks, unmatched_detections, trace)"
    by (auto simp: matching_cascade_Inr_iff)
  note T = cascade_run_trace[OF run]
  have tr: "cascade_trace solver distance_metric max_distance cascade_depth trks dets tio dio
              = Inr trace"
    using run by (auto simp: cascade_trace_Inr_iff)
  have calls: "matcher_calls solver distance_metric max_distance trks dets ?di trace"
    using level_loop_matcher_calls[OF T(1)] .
  have part: "mset (map snd matches) + mset (elems unmatched_detections) = mset (elems ?di)"
    using matcher_calls_detections[OF calls assms(2)] T(2,3) by simp
  then have m: "mset (map snd matches @ elems unmatched_detections) = mset (elems ?di)"
    by simp
  have dist: "distinct (map snd matches @ elems unmatched_detections)"
    using m assms(3) mset_eq_imp_distinct_iff by blast
  have sets: "set (map snd matches) \<union> set (elems unmatched_detections) = set (elems ?di)"
    using mset_eq_setD[OF m] by simp
  have later: "\<forall>L tsl pool ml ud L' tsl' pool' ml' ud'.
        Ran L tsl pool ml ud \<in> set trace \<and> Ran L' tsl' pool' ml' ud' \<in> set trace \<and> L < L' \<longrightarrow>
        set (map snd ml) \<inter> set (elems pool') = {}"
  proof (intro allI impI, elim conjE)
    fix L tsl pool ml ud L' tsl' pool' ml' ud'
    assume a: "Ran L tsl pool ml ud \<in> set trace" and b: "Ran L' tsl' pool' ml' ud' \<in> set trace"
      and lt: "L < L'"
    from a obtain i where i: "i < length trace" "trace ! i = Ran L tsl pool ml ud"
      by (auto simp: in_set_conv_nth)
    from b obtain j where j: "j < length trace" "trace ! j = Ran L' tsl' pool' ml' ud'"
      by (auto simp: in_set_conv_nth)
    have "L = i" "L' = j"
      using level_loop_levels[OF T(1) i(1)] level_loop_levels[OF T(1) j(1)] i(2) j(2) by simp_all
    then have ij: "i < j" using lt by simp
    have "pool' = pool_after ?di (take j trace)"
      using calls j unfolding matcher_calls_def by blast
    then show "set (map snd ml) \<inter> set (elems pool') = {}"
      using matcher_calls_disjoint[OF calls assms(2,3) ij i] by simp
  qed
  show ?thesis
    using tr later part dist sets by blast
qed

theorem matching_cascade_detections_witness:
  "matching_cascade linear_sum_assignment example_cost (2 / 10) 2
     [example_track 1 Confirmed 1 0, example_track 2 Confirmed 2 5, example_track 3 Confirmed 1 9]
     [example_detection (5 / 10), example_detection (92 / 10), example_detection (51 / 10),
      example_detection 30] None None
     = Inr ([(0, 0), (2, 1), (1, 2)], [], PyList [3]) \<and>
   distinct (elems (range_default
     [example_detection (5 / 10), example_detection (92 / 10), example_detection (51 / 10),
      example_detection 30] None)) \<and>
   cascade_trace linear_sum_assignment example_cost (2 / 10) 2
     [example_track 1 Confirmed 1 0, example_track 2 Confirmed 2 5, example_track 3 Confirmed 1 9]
     [example_detection (5 / 10), example_detection (92 / 10), example_detection (51 / 10),
      example_detection 30] None None
     = Inr [Ran 0 [0, 2] (PyList [0, 1, 2, 3]) [(0, 0), (2, 1)] (PyList [2, 3]),
            Ran 1 [1] (PyList [2, 3]) [(1, 2)] (PyList [3])] \<and>
   set (map snd [(0 :: nat, 0 :: nat), (2, 1)]) \<inter> set (elems (PyList [2, 3])) = {} \<and>
   distinct (map snd [(0 :: nat, 0 :: nat), (2, 1), (1, 2)] @ elems (PyList [3]))"
proof -
  let ?trks = "[example_track 1 Confirmed 1 0, example_track 2 Confirmed 2 5,
                example_track 3 Confirmed 1 9]"
  let ?dets = "[example_detection (5 / 10), example_detection (92 / 10),
                example_detection (51 / 10), example_detection 30]"
  have ret: "matching_cascade linear_sum_assignment example_cost (2 / 10) 2 ?trks ?dets None None
     = Inr ([(0, 0), (2, 1), (1, 2)], [], PyList [3])"
    by code_simp
  have tr: "cascade_trace linear_sum_assignment example_cost (2 / 10) 2 ?trks ?dets None None
     = Inr [Ran 0 [0, 2] (PyList [0, 1, 2, 3]) [(0, 0), (2, 1)] (PyList [2, 3]),
            Ran 1 [1] (PyList [2, 3]) [(1, 2)] (PyList [3])]"
    by code_simp
  have sol: "\<forall>cm. one_to_one (linear_sum_assignment cm)"
    by (simp add: linear_sum_assignment_one_to_one)
  have dist: "distinct (elems (range_default ?dets None))"
    by (simp add: range_default_def)
  from matching_cascade_detections[OF ret sol dist] obtain trace where
    t: "cascade_trace linear_sum_assignment example_cost (2 / 10) 2 ?trks ?dets None None
          = Inr trace"
    and later: "\<forall>L tsl pool ml ud L' tsl' pool' ml' ud'.
        Ran L tsl pool ml ud \<in> set trace \<and> Ran L' tsl' pool' ml' ud' \<in> set trace \<and> L < L' \<longrightarrow>
        set (map snd ml) \<inter> set (elems pool') = {}"
    and d: "distinct (map snd [(0 :: nat, 0 :: nat), (2, 1), (1, 2)] @ elems (PyList [3]))"
    by blast
  have trace: "trace = [Ran 0 [0, 2] (PyList [0, 1, 2, 3]) [(0, 0), (2, 1)] (PyList [2, 3]),
            Ran 1 [1] (PyList [2, 3]) [(1, 2)] (PyList [3])]"
    using t tr by simp
  have "set (map snd [(0 :: nat, 0 :: nat), (2, 1)]) \<inter> set (elems (PyList [2, 3])) = {}"
    using later[rule_format, of 0 "[0, 2]" "PyList [0, 1, 2, 3]" "[(0, 0), (2, 1)]" "PyList [2, 3]"
        1 "[1]" "PyList [2, 3]" "[(1, 2)]" "PyList [3]"]
    unfolding trace by simp
  then show ?thesis
    using ret tr dist d by blast
qed

lemma level_loop_matcher_levels:
  assumes "level_loop solver dm maxd trks dets ts [0..<depth] p evs"
  shows "matcher_levels trks ts evs"
  unfolding matcher_levels_def
proof (intro allI impI)
  fix i l tsl pool ml ud
  assume i: "i < length evs" and e: "evs ! i = Ran l tsl pool ml ud"
  have len: "length evs \<le> depth"
    using assms by (simp add: level_loop_def)
  have "level_step solver dm maxd trks dets ts ([0..<depth] ! i) (pool_after p (take i evs))
          (Suc i = length evs) (evs ! i)"
    using assms i unfolding level_loop_def by metis
  moreover have "[0..<depth] ! i = i"
    using i len by simp
  ultimately show "tsl = filter (\<lambda>k. time_since_update (trks ! k) = 1 + i) ts"
    using e by (simp add: select_tracks_Inr_iff)
qed

lemma matcher_levels_take:
  "matcher_levels trks ts evs \<Longrightarrow> matcher_levels trks ts (take j evs)"
  unfolding matcher_levels_def by simp

lemma matcher_calls_tracks:
  assumes "matcher_calls solver dm maxd trks dets p evs" and "matcher_levels trks ts evs"
    and "\<forall>cm. one_to_one (solver cm)" and "distinct ts"
  shows "distinct (map fst (concat (map matches_of evs))) \<and>
         (\<forall>k \<in> set (map fst (concat (map matches_of evs))).
            k \<in> set ts \<and> time_since_update (trks ! k) \<le> length evs)"
  using assms(1,2)
proof (induction evs rule: rev_induct)
  case Nil
  then show ?case by simp
next
  case (snoc e evs)
  have pre: "matcher_calls solver dm maxd trks dets p evs" "matcher_levels trks ts evs"
    using matcher_calls_take[OF snoc.prems(1), of "length evs"]
      matcher_levels_take[OF snoc.prems(2), of "length evs"] by simp_all
  define M where "M = map fst (concat (map matches_of evs))"
  have IH: "distinct M" "\<And>k. k \<in> set M \<Longrightarrow> k \<in> set ts \<and> time_since_update (trks ! k) \<le> length evs"
    using snoc.IH[OF pre] unfolding M_def by blast+
  have old: "k \<in> set ts \<and> time_since_update (trks ! k) \<le> length (evs @ [e])" if "k \<in> set M" for k
    using IH(2)[OF that] by simp
  have app: "map fst (concat (map matches_of (evs @ [e]))) = M @ map fst (matches_of e)"
    by (simp add: M_def)
  show ?case
  proof (cases e)
    case (Ran l tsl pool ml ud)
    have at: "(evs @ [e]) ! length evs = Ran l tsl pool ml ud" "length evs < length (evs @ [e])"
      by (simp_all add: Ran)
    obtain ut where
      mcm: "min_cost_matching solver dm maxd trks dets (Some (PyList tsl)) (Some pool)
              = Inr (ml, ut, ud)"
      using snoc.prems(1) at unfolding matcher_calls_def by blast
    have tsl: "tsl = filter (\<lambda>k. time_since_update (trks ! k) = 1 + length evs) ts"
      using snoc.prems(2) at unfolding matcher_levels_def by blast
    have part: "mset (map fst ml @ elems ut) = mset tsl"
      using min_cost_matching_partition(1)[OF mcm] assms(3) by (simp add: arange_default_def)
    have "distinct tsl" using assms(4) tsl by simp
    then have "distinct (map fst ml @ elems ut)"
      using part mset_eq_imp_distinct_iff by blast
    then have d: "distinct (map fst ml)" by simp
    have "set (map fst ml) \<subseteq> set tsl"
      using mset_eq_setD[OF part] by auto
    then have new: "k \<in> set ts \<and> time_since_update (trks ! k) = 1 + length evs"
      if "k \<in> set (map fst ml)" for k
      using tsl that by auto
    have disj: "set M \<inter> set (map fst ml) = {}"
    proof (rule ccontr)
      assume "set M \<inter> set (map fst ml) \<noteq> {}"
      then obtain k where "k \<in> set M" "k \<in> set (map fst ml)" by blast
      then show False using IH(2)[of k] new[of k] by simp
    qed
    have "distinct (M @ map fst ml)"
      using IH(1) d disj by simp
    moreover have "\<forall>k \<in> set (M @ map fst ml).
            k \<in> set ts \<and> time_since_update (trks ! k) \<le> length (evs @ [e])"
    proof
      fix k assume "k \<in> set (M @ map fst ml)"
      then have "k \<in> set M \<or> k \<in> set (map fst ml)" by simp
      then show "k \<in> set ts \<and> time_since_update (trks ! k) \<le> length (evs @ [e])"
      proof
        assume "k \<in> set M" then show ?thesis by (rule old)
      next
        assume "k \<in> set (map fst ml)"
        then show ?thesis using new[of k] by simp
      qed
    qed
    ultimately show ?thesis
      unfolding app by (simp only: Ran matches_of.simps)
  next
    case (Stopped l)
    then show ?thesis unfolding app using IH(1) old by simp
  next
    case (Skipped l)
    then show ?thesis unfolding app using IH(1) old by simp
  qed
qed

lemma matching_cascade_one_to_one:
  assumes mc: "matching_cascade solver dm maxd depth trks dets (Some (PyList ts)) dio =
             Inr (matches, unmatched_tracks, unmatched_detections)"
    and sol: "\<forall>cm. one_to_one (solver cm)"
    and dts: "distinct ts" and dds: "distinct (elems (range_default dets dio))"
  shows "distinct (map fst matches)" and "set (map fst matches) \<subseteq> set ts"
    and "set unmatched_tracks = set ts - set (map fst matches)"
    and "distinct unmatched_tracks"
    and "distinct (map snd matches @ elems unmatched_detections)"
    and "set (map snd matches) \<union> set (elems unmatched_detections)
           = set (elems (range_default dets dio))"
proof -
  from mc obtain trace where
    run: "cascade_run solver dm maxd depth trks dets (Some (PyList ts)) dio =
            Inr (matches, unmatched_tracks, unmatched_detections, trace)"
    by (auto simp: matching_cascade_Inr_iff)
  note T = cascade_run_trace[OF run, simplified range_default_def, simplified]
  have calls: "matcher_calls solver dm maxd trks dets
                 (case dio of None \<Rightarrow> PyList [0..<length dets] | Some i \<Rightarrow> i) trace"
    using level_loop_matcher_calls[OF T(1)] .
  have levels: "matcher_levels trks ts trace"
    using level_loop_matcher_levels[OF T(1)] .
  from matcher_calls_tracks[OF calls levels sol dts] T(2)
  show "distinct (map fst matches)" and "set (map fst matches) \<subseteq> set ts"
    by auto
  show "set unmatched_tracks = set ts - set (map fst matches)" and "distinct unmatched_tracks"
    using T(4,5) by simp_all
  have "mset (map snd matches) + mset (elems unmatched_detections)
          = mset (elems (range_default dets dio))"
    using matcher_calls_detections[OF calls sol] T(2,3) by (simp add: range_default_def)
  then have m: "mset (map snd matches @ elems unmatched_detections)
                  = mset (elems (range_default dets dio))"
    by simp
  show "distinct (map snd matches @ elems unmatched_detections)"
    using m dds mset_eq_imp_distinct_iff by blast
  show "set (map snd matches) \<union> set (elems unmatched_detections)
           = set (elems (range_default dets dio))"
    using mset_eq_setD[OF m] by simp
qed

subsection \<open>The two rounds of the Tracker\<close>

lemma confirmed_tracks_eq:
  "confirmed_tracks ts = filter (\<lambda>i. is_confirmed (ts ! i)) [0..<length ts]"
  by (simp add: confirmed_tracks_def enumerate_positions filter_map comp_def)

lemma unconfirmed_tracks_eq:
  "unconfirmed_tracks ts = filter (\<lambda>i. \<not> is_confirmed (ts ! i)) [0..<length ts]"
  by (simp add: unconfirmed_tracks_def enumerate_positions filter_map comp_def)

lemma tracker_match_Inr_iff:
  "tracker_match env self dets = Inr (matches, unmatched_tracks, unmatched_detections) \<longleftrightarrow>
     (\<exists>ma uta uda mb utb.
        matching_cascade (linear_assignment env) (gated_metric env self)
          (matching_threshold env (metric self)) (max_age self) (tracks self) dets
          (Some (PyList (confirmed_tracks (tracks self)))) None = Inr (ma, uta, uda) \<and>
        (\<forall>k \<in> set uta. k < length (tracks self)) \<and>
        min_cost_matching (linear_assignment env) (iou_cost env) (max_iou_distance self)
          (tracks self) dets
          (Some (PyList (unconfirmed_tracks (tracks self) @
                         filter (\<lambda>k. time_since_update (tracks self ! k) = 1) uta)))
          (Some uda) = Inr (mb, utb, unmatched_detections) \<and>
        matches = ma @ mb \<and>
        unmatched_tracks =
          list_of_set (set (filter (\<lambda>k. time_since_update (tracks self ! k) \<noteq> 1) uta @
                            elems utb)))"
  unfolding tracker_match_def
  by (auto simp: bnd_Inr_iff select_tracks_Inr_iff Let_def)

lemma distinct_confirmed_tracks [simp]: "distinct (confirmed_tracks ts)"
  by (simp add: confirmed_tracks_eq)

lemma distinct_unconfirmed_tracks [simp]: "distinct (unconfirmed_tracks ts)"
  by (simp add: unconfirmed_tracks_eq)

lemma set_confirmed_tracks:
  "set (confirmed_tracks ts) = {k. k < length ts \<and> is_confirmed (ts ! k)}"
  by (auto simp: confirmed_tracks_eq)

lemma set_unconfirmed_tracks:
  "set (unconfirmed_tracks ts) = {k. k < length ts \<and> \<not> is_confirmed (ts ! k)}"
  by (auto simp: unconfirmed_tracks_eq)

lemma matching_cascade_unmatched_tracks:
  assumes "matching_cascade solver dm maxd depth trks dets tio dio = Inr (m, ut, ud)"
  shows "set ut = set (elems (range_default trks tio)) - set (map fst m)" and "distinct ut"
proof -
  from assms obtain tr where
    run: "cascade_run solver dm maxd depth trks dets tio dio = Inr (m, ut, ud, tr)"
    by (auto simp: matching_cascade_Inr_iff)
  show "set ut = set (elems (range_default trks tio)) - set (map fst m)" and "distinct ut"
    using cascade_run_trace(4,5)[OF run] by simp_all
qed

text \<open>
  C7. In a call of \<^verbatim>\<open>Tracker._match\<close> that returns, the cascade ran over the confirmed
  tracks, and the Matcher was then called with the IOU cost, the IOU threshold, the
  detections the cascade left unmatched, and a candidate list without repetitions whose
  elements are exactly the non-confirmed tracks and the confirmed tracks that the cascade
  left unmatched and whose \<open>time_since_update\<close> is 1. A confirmed track that the cascade
  left unmatched and whose \<open>time_since_update\<close> is not 1 is not a candidate and is in the
  returned unmatched tracks.
\<close>

theorem tracker_match_iou_round:
  assumes "tracker_match env self dets = Inr (matches, unmatched_tracks, unmatched_detections)"
  shows "\<exists>ma uta uda cands mb utb.
     matching_cascade (linear_assignment env) (gated_metric env self)
       (matching_threshold env (metric self)) (max_age self) (tracks self) dets
       (Some (PyList (confirmed_tracks (tracks self)))) None = Inr (ma, uta, uda) \<and>
     min_cost_matching (linear_assignment env) (iou_cost env) (max_iou_distance self)
       (tracks self) dets (Some (PyList cands)) (Some uda) = Inr (mb, utb, unmatched_detections) \<and>
     distinct cands \<and>
     set cands = {k. k < length (tracks self) \<and> \<not> is_confirmed (tracks self ! k)} \<union>
                 {k \<in> set uta. time_since_update (tracks self ! k) = 1} \<and>
     set uta = {k. k < length (tracks self) \<and> is_confirmed (tracks self ! k)} - set (map fst ma) \<and>
     matches = ma @ mb \<and>
     (\<forall>k \<in> set uta. time_since_update (tracks self ! k) \<noteq> 1 \<longrightarrow>
        k \<notin> set cands \<and> k \<in> set unmatched_tracks) \<and>
     set unmatched_tracks =
       {k \<in> set uta. time_since_update (tracks self ! k) \<noteq> 1} \<union> set (elems utb)"
proof -
  let ?ts = "tracks self"
  from assms obtain ma uta uda mb utb where
    casc: "matching_cascade (linear_assignment env) (gated_metric env self)
          (matching_threshold env (metric self)) (max_age self) ?ts dets
          (Some (PyList (confirmed_tracks ?ts))) None = Inr (ma, uta, uda)" and
    iou: "min_cost_matching (linear_assignment env) (iou_cost env) (max_iou_distance self)
          ?ts dets
          (Some (PyList (unconfirmed_tracks ?ts @
                         filter (\<lambda>k. time_since_update (?ts ! k) = 1) uta)))
          (Some uda) = Inr (mb, utb, unmatched_detections)" and
    m: "matches = ma @ mb" and
    ut: "unmatched_tracks =
          list_of_set (set (filter (\<lambda>k. time_since_update (?ts ! k) \<noteq> 1) uta @ elems utb))"
    unfolding tracker_match_Inr_iff by blast
  define cands where
    "cands = unconfirmed_tracks ?ts @ filter (\<lambda>k. time_since_update (?ts ! k) = 1) uta"
  have uta: "set uta = {k. k < length ?ts \<and> is_confirmed (?ts ! k)} - set (map fst ma)"
    and duta: "distinct uta"
    using matching_cascade_unmatched_tracks[OF casc]
    by (simp_all add: range_default_def set_confirmed_tracks)
  have dc: "distinct cands"
    using duta uta by (auto simp: cands_def set_unconfirmed_tracks)
  have sc: "set cands = {k. k < length ?ts \<and> \<not> is_confirmed (?ts ! k)} \<union>
                 {k \<in> set uta. time_since_update (?ts ! k) = 1}"
    by (auto simp: cands_def set_unconfirmed_tracks)
  have sut: "set unmatched_tracks =
       {k \<in> set uta. time_since_update (?ts ! k) \<noteq> 1} \<union> set (elems utb)"
    by (auto simp: ut)
  have excl: "\<forall>k \<in> set uta. time_since_update (?ts ! k) \<noteq> 1 \<longrightarrow>
        k \<notin> set cands \<and> k \<in> set unmatched_tracks"
    using uta sc sut by auto
  show ?thesis
    using casc iou[folded cands_def] dc sc uta m excl sut by blast
qed

text \<open>
  C10. For an Assignment Solver that never selects a row or a column twice, the matches
  returned by \<^verbatim>\<open>Tracker._match\<close> (those of the cascade followed by those of the IOU
  round) are a one-to-one partial matching: no track and no detection occurs in two
  pairs, and no matched detection is among the returned unmatched detections.
\<close>

theorem tracker_match_one_to_one:
  assumes "tracker_match env self dets = Inr (matches, unmatched_tracks, unmatched_detections)"
    and "\<forall>cm. one_to_one (linear_assignment env cm)"
  shows "distinct (map fst matches) \<and> distinct (map snd matches) \<and>
         set (map snd matches) \<inter> set (elems unmatched_detections) = {}"
proof -
  let ?ts = "tracks self"
  from assms(1) obtain ma uta uda mb utb where
    casc: "matching_cascade (linear_assignment env) (gated_metric env self)
          (matching_threshold env (metric self)) (max_age self) ?ts dets
          (Some (PyList (confirmed_tracks ?ts))) None = Inr (ma, uta, uda)" and
    iou: "min_cost_matching (linear_assignment env) (iou_cost env) (max_iou_distance self)
          ?ts dets
          (Some (PyList (unconfirmed_tracks ?ts @
                         filter (\<lambda>k. time_since_update (?ts ! k) = 1) uta)))
          (Some uda) = Inr (mb, utb, unmatched_detections)" and
    m: "matches = ma @ mb"
    unfolding tracker_match_Inr_iff by blast
  define cands where
    "cands = unconfirmed_tracks ?ts @ filter (\<lambda>k. time_since_update (?ts ! k) = 1) uta"
  have dd: "distinct (elems (range_default dets None))"
    by (simp add: range_default_def)
  note C = matching_cascade_one_to_one[OF casc assms(2) distinct_confirmed_tracks dd]
  have dc: "distinct cands"
    using C(3,4) by (auto simp: cands_def set_unconfirmed_tracks set_confirmed_tracks)
  have cm: "set cands \<inter> set (map fst ma) = {}"
    using C(2,3) by (auto simp: cands_def set_unconfirmed_tracks set_confirmed_tracks)
  have pt: "mset (map fst mb @ elems utb) = mset cands"
    and pd: "mset (map snd mb @ elems unmatched_detections) = mset (elems uda)"
    using min_cost_matching_partition[OF iou[folded cands_def]] assms(2)
    by (simp_all add: arange_default_def)
  have "distinct (map fst mb @ elems utb)"
    using pt dc mset_eq_imp_distinct_iff by blast
  then have dmb: "distinct (map fst mb)" by simp
  have "set (map fst mb) \<subseteq> set cands"
    using mset_eq_setD[OF pt] by auto
  then have tracks: "distinct (map fst matches)"
    using C(1) dmb cm by (auto simp: m)
  have duda: "distinct (elems uda)" and disj: "set (map snd ma) \<inter> set (elems uda) = {}"
    using C(5) by simp_all
  have d2: "distinct (map snd mb @ elems unmatched_detections)"
    using pd duda mset_eq_imp_distinct_iff by blast
  have sub: "set (map snd mb) \<union> set (elems unmatched_detections) = set (elems uda)"
    using mset_eq_setD[OF pd] by simp
  have "distinct (map snd ma)" using C(5) by simp
  then have dets1: "distinct (map snd matches)"
    using d2 disj sub by (auto simp: m)
  have dets2: "set (map snd matches) \<inter> set (elems unmatched_detections) = {}"
    using d2 disj sub by (auto simp: m)
  show ?thesis
    using tracks dets1 dets2 by blast
qed

lemma example_tracker_match:
  "tracker_match example_env example_tracker example_detections
     = Inr ([(0, 0), (2, 1), (3, 2)], [1], PyList [3])"
  by code_simp

theorem tracker_match_iou_round_witness:
  "tracker_match example_env example_tracker example_detections
     = Inr ([(0, 0), (2, 1), (3, 2)], [1], PyList [3]) \<and>
   (\<exists>ma uta uda cands mb utb.
     matching_cascade (linear_assignment example_env) (gated_metric example_env example_tracker)
       (matching_threshold example_env (metric example_tracker)) (max_age example_tracker)
       (tracks example_tracker) example_detections
       (Some (PyList (confirmed_tracks (tracks example_tracker)))) None = Inr (ma, uta, uda) \<and>
     min_cost_matching (linear_assignment example_env) (iou_cost example_env)
       (max_iou_distance example_tracker) (tracks example_tracker) example_detections
       (Some (PyList cands)) (Some uda) = Inr (mb, utb, PyList [3]) \<and>
     distinct cands \<and>
     set cands = {k. k < length (tracks example_tracker) \<and>
                     \<not> is_confirmed (tracks example_tracker ! k)} \<union>
                 {k \<in> set uta. time_since_update (tracks example_tracker ! k) = 1} \<and>
     [(0, 0), (2, 1), (3, 2)] = ma @ mb \<and>
     set [1] = {k \<in> set uta. time_since_update (tracks example_tracker ! k) \<noteq> 1} \<union>
               set (elems utb))"
  using tracker_match_iou_round[OF example_tracker_match] example_tracker_match
  by blast

theorem tracker_match_one_to_one_witness:
  "tracker_match example_env example_tracker example_detections
     = Inr ([(0, 0), (2, 1), (3, 2)], [1], PyList [3]) \<and>
   distinct (map fst [(0 :: nat, 0 :: nat), (2, 1), (3, 2)]) \<and>
   distinct (map snd [(0 :: nat, 0 :: nat), (2, 1), (3, 2)]) \<and>
   set (map snd [(0 :: nat, 0 :: nat), (2, 1), (3, 2)]) \<inter> set (elems (PyList [3])) = {}"
proof -
  have sol: "\<forall>cm. one_to_one (linear_assignment example_env cm)"
    by (simp add: example_env_def linear_sum_assignment_one_to_one)
  show ?thesis
    using tracker_match_one_to_one[OF example_tracker_match sol] example_tracker_match
    by blast
qed

subsection \<open>The refresh of the metric\<close>

lemma gather_eq:
  "gather ts (feats, targets) =
     (map (\<lambda>t. if is_confirmed t then t\<lparr>features := []\<rparr> else t) ts,
      feats @ concat (map features (filter is_confirmed ts)),
      targets @ concat (map (\<lambda>t. replicate (length (features t)) (track_id t))
                         (filter is_confirmed ts)))"
  by (induction ts arbitrary: feats targets) (simp_all add: map_replicate_const)

lemma initiate_track_metric [simp]: "metric (initiate_track env self d) = metric self"
  by (simp add: initiate_track_def case_prod_unfold Let_def)

lemma initiate_unmatched_metric:
  "initiate_unmatched env dets idx self = Inr self' \<Longrightarrow> metric self' = metric self"
proof (induction idx arbitrary: self)
  case Nil
  then show ?case by simp
next
  case (Cons i idx)
  then obtain d where "item dets i = Inr d"
    and "initiate_unmatched env dets idx (initiate_track env self d) = Inr self'"
    by (auto simp: bnd_Inr_iff)
  then show ?case
    using Cons.IH[of "initiate_track env self d"] by simp
qed

lemma update_track_set_props:
  assumes "update_track_set env self dets = Inr mid"
  shows "metric mid = metric self" and "\<forall>t \<in> set (tracks mid). \<not> is_deleted t"
proof -
  from assms obtain ud ts2 s3 where
    ini: "initiate_unmatched env dets (elems ud) (self\<lparr>tracks := ts2\<rparr>) = Inr s3"
    and mid: "mid = s3\<lparr>tracks := filter (\<lambda>t. \<not> is_deleted t) (tracks s3)\<rparr>"
    unfolding update_track_set_def by (auto simp: bnd_Inr_iff)
  show "metric mid = metric self"
    using initiate_unmatched_metric[OF ini] by (simp add: mid)
  show "\<forall>t \<in> set (tracks mid). \<not> is_deleted t"
    by (simp add: mid)
qed

lemma update_distance_metric_eq:
  "update_distance_metric env self =
     (self\<lparr>tracks := map (\<lambda>t. if is_confirmed t then t\<lparr>features := []\<rparr> else t) (tracks self),
           metric := partial_fit env (metric self)
             (concat (map features (filter is_confirmed (tracks self))))
             (concat (map (\<lambda>t. replicate (length (features t)) (track_id t))
                        (filter is_confirmed (tracks self))))
             (map track_id (filter is_confirmed (tracks self)))\<rparr>,
      concat (map features (filter is_confirmed (tracks self))),
      concat (map (\<lambda>t. replicate (length (features t)) (track_id t))
                (filter is_confirmed (tracks self))),
      map track_id (filter is_confirmed (tracks self)))"
  by (simp add: update_distance_metric_def gather_eq Let_def)

text \<open>
  C8. In a call of \<^verbatim>\<open>Tracker.update\<close> that returns, the track set is first brought up to
  date and the deleted tracks are dropped; \<^verbatim>\<open>partial_fit\<close> is then applied once, to the
  gallery the Tracker had, with the features of the remaining confirmed tracks
  concatenated in track order, with a target list that repeats each confirmed track's
  id once per feature of that track, and with the ids of the remaining confirmed tracks
  as active targets. In the resulting Tracker every confirmed track has an empty feature
  buffer and every other track is unchanged.
\<close>

theorem tracker_update_refreshes_metric:
  assumes "tracker_update env self dets = Inr (self', feats, targets, active_targets)"
  shows "\<exists>mid. update_track_set env self dets = Inr mid \<and>
     (\<forall>t \<in> set (tracks mid). \<not> is_deleted t) \<and>
     feats = concat (map features (filter is_confirmed (tracks mid))) \<and>
     targets = concat (map (\<lambda>t. replicate (length (features t)) (track_id t))
                        (filter is_confirmed (tracks mid))) \<and>
     active_targets = map track_id (filter is_confirmed (tracks mid)) \<and>
     metric self' = partial_fit env (metric self) feats targets active_targets \<and>
     tracks self' = map (\<lambda>t. if is_confirmed t then t\<lparr>features := []\<rparr> else t) (tracks mid) \<and>
     (\<forall>t \<in> set (tracks self'). is_confirmed t \<longrightarrow> features t = [])"
proof -
  from assms obtain mid where
    mid: "update_track_set env self dets = Inr mid" and
    upd: "update_distance_metric env mid = (self', feats, targets, active_targets)"
    by (auto simp: tracker_update_def bnd_Inr_iff)
  note P = update_track_set_props[OF mid]
  have f: "feats = concat (map features (filter is_confirmed (tracks mid)))"
    and t: "targets = concat (map (\<lambda>t. replicate (length (features t)) (track_id t))
                        (filter is_confirmed (tracks mid)))"
    and a: "active_targets = map track_id (filter is_confirmed (tracks mid))"
    and s: "self' = mid\<lparr>tracks := map (\<lambda>t. if is_confirmed t then t\<lparr>features := []\<rparr> else t)
                                  (tracks mid),
                      metric := partial_fit env (metric mid) feats targets active_targets\<rparr>"
    using upd unfolding update_distance_metric_eq by auto
  have m: "metric self' = partial_fit env (metric self) feats targets active_targets"
    using s P(1) by simp
  have ts: "tracks self' = map (\<lambda>t. if is_confirmed t then t\<lparr>features := []\<rparr> else t) (tracks mid)"
    using s by simp
  have e: "\<forall>t \<in> set (tracks self'). is_confirmed t \<longrightarrow> features t = []"
    unfolding ts by (auto simp: is_confirmed_def)
  show ?thesis
    using mid P(2) f t a m ts e by blast
qed

theorem tracker_update_refreshes_metric_witness:
  "\<exists>self' mid.
     tracker_update example_env example_tracker example_detections
       = Inr (self', [[0], [1 / 2], [5], [9], [46 / 5], [28], [30]], [1, 1, 2, 3, 3, 4, 4],
              [1, 2, 3, 4]) \<and>
     update_track_set example_env example_tracker example_detections = Inr mid \<and>
     [[0], [1 / 2], [5], [9], [46 / 5], [28], [30]]
       = concat (map features (filter is_confirmed (tracks mid))) \<and>
     [1, 1, 2, 3, 3, 4, 4]
       = concat (map (\<lambda>t. replicate (length (features t)) (track_id t))
                   (filter is_confirmed (tracks mid))) \<and>
     [1, 2, 3, 4] = map track_id (filter is_confirmed (tracks mid)) \<and>
     metric self' = partial_fit example_env (metric example_tracker)
       [[0], [1 / 2], [5], [9], [46 / 5], [28], [30]] [1, 1, 2, 3, 3, 4, 4] [1, 2, 3, 4] \<and>
     tracks self' = map (\<lambda>t. if is_confirmed t then t\<lparr>features := []\<rparr> else t) (tracks mid)"
proof -
  have "case tracker_update example_env example_tracker example_detections of
          Inl e \<Rightarrow> False
        | Inr (s, f, t, a) \<Rightarrow>
            f = [[0], [1 / 2], [5], [9], [46 / 5], [28], [30]] \<and> t = [1, 1, 2, 3, 3, 4, 4] \<and>
            a = [1, 2, 3, 4]"
    by code_simp
  then obtain self' where
    ret: "tracker_update example_env example_tracker example_detections
       = Inr (self', [[0], [1 / 2], [5], [9], [46 / 5], [28], [30]], [1, 1, 2, 3, 3, 4, 4],
              [1, 2, 3, 4])"
    by (auto split: sum.splits)
  from tracker_update_refreshes_metric[OF ret] show ?thesis
  proof (elim exE conjE)
    fix mid
    assume "update_track_set example_env example_tracker example_detections = Inr mid"
      "[[0], [1 / 2], [5], [9], [46 / 5], [28], [30]]
         = concat (map features (filter is_confirmed (tracks mid)))"
      "[1, 1, 2, 3, 3, 4, 4]
         = concat (map (\<lambda>t. replicate (length (features t)) (track_id t))
                     (filter is_confirmed (tracks mid)))"
      "[1, 2, 3, 4] = map track_id (filter is_confirmed (tracks mid))"
      "metric self' = partial_fit example_env (metric example_tracker)
         [[0], [1 / 2], [5], [9], [46 / 5], [28], [30]] [1, 1, 2, 3, 3, 4, 4] [1, 2, 3, 4]"
      "tracks self' = map (\<lambda>t. if is_confirmed t then t\<lparr>features := []\<rparr> else t) (tracks mid)"
    with ret show ?thesis
      by (intro exI[of _ self'] exI[of _ mid] conjI)
  qed
qed

subsection \<open>Optimal assignments and the unmatched lists\<close>

lemma total_cost_pair_cost: "total_cost cm sel = sum_list (map (pair_cost cm) sel)"
  by (simp add: total_cost_def pair_cost_def[abs_def] case_prod_unfold)

lemma assignment_matching_set:
  assumes "assignment R C sel"
  shows "distinct sel" and "matching_set R C (set sel)"
    and "total_cost cm sel = sum (pair_cost cm) (set sel)"
proof -
  have d1: "distinct (map fst sel)" and d2: "distinct (map snd sel)"
    and rng: "\<forall>(row, col) \<in> set sel. row < R \<and> col < C" and len: "length sel = min R C"
    using assms by (simp_all add: assignment_def one_to_one_def list_all_iff)
  show d: "distinct sel"
    using d1 by (simp add: distinct_map)
  have "inj_on fst (set sel)" "inj_on snd (set sel)"
    using d1 d2 by (simp_all add: distinct_map)
  moreover have "set sel \<subseteq> {..<R} \<times> {..<C}"
    using rng by auto
  moreover have "card (set sel) = min R C"
    using d len by (simp add: distinct_card)
  ultimately show "matching_set R C (set sel)"
    by (simp add: matching_set_def)
  show "total_cost cm sel = sum (pair_cost cm) (set sel)"
    using d by (simp add: total_cost_pair_cost sum_list_distinct_conv_sum_set)
qed

lemma matching_set_assignment:
  assumes "matching_set R C S"
  obtains sel where "set sel = S" and "assignment R C sel"
    and "total_cost cm sel = sum (pair_cost cm) S"
proof -
  from assms have fin: "finite S" by (simp add: matching_set_def)
  then obtain sel where sel: "set sel = S" "distinct sel"
    using finite_distinct_list by blast
  have "distinct (map fst sel)" "distinct (map snd sel)"
    using assms sel by (simp_all add: matching_set_def distinct_map)
  moreover have "list_all (\<lambda>(row, col). row < R \<and> col < C) sel"
    using assms sel by (auto simp: matching_set_def list_all_iff)
  moreover have "length sel = min R C"
    using assms sel by (metis distinct_card matching_set_def)
  ultimately have a: "assignment R C sel"
    by (simp add: assignment_def one_to_one_def)
  have "total_cost cm sel = sum (pair_cost cm) S"
    using sel by (simp add: total_cost_pair_cost sum_list_distinct_conv_sum_set)
  with sel a that show ?thesis by blast
qed

lemma optimal_matching_set:
  assumes "optimal R C cm sel" and "matching_set R C S"
  shows "sum (pair_cost cm) (set sel) \<le> sum (pair_cost cm) S"
proof -
  from matching_set_assignment[OF assms(2), of cm] obtain sel' where
    sel': "assignment R C sel'" "total_cost cm sel' = sum (pair_cost cm) S"
    by blast
  have "assignment R C sel" using assms(1) by (simp add: optimal_def)
  then have "total_cost cm sel = sum (pair_cost cm) (set sel)"
    by (rule assignment_matching_set(3))
  moreover have "total_cost cm sel \<le> total_cost cm sel'"
    using assms(1) sel'(1) by (simp add: optimal_def)
  ultimately show ?thesis using sel'(2) by simp
qed

lemma matching_set_covers:
  assumes "matching_set R C S" and "row < R" and "col < C"
  shows "row \<in> fst ` S \<or> col \<in> snd ` S"
proof (rule ccontr)
  assume "\<not> (row \<in> fst ` S \<or> col \<in> snd ` S)"
  then have r: "fst ` S \<subseteq> {..<R} - {row}" and c: "snd ` S \<subseteq> {..<C} - {col}"
    using assms(1) by (auto simp: matching_set_def)
  have "card (fst ` S) = card S" "card (snd ` S) = card S"
    using assms(1) by (simp_all add: matching_set_def card_image)
  moreover have "card (fst ` S) \<le> card ({..<R} - {row})"
    using r by (intro card_mono) simp_all
  moreover have "card (snd ` S) \<le> card ({..<C} - {col})"
    using c by (intro card_mono) simp_all
  moreover have "card ({..<R} - {row}) = R - 1" "card ({..<C} - {col}) = C - 1"
    using assms(2,3) by simp_all
  moreover have "card S = min R C"
    using assms(1) by (simp add: matching_set_def)
  ultimately show False
    using assms(2,3) by (simp add: min_def split: if_splits)
qed

lemma matching_set_replace:
  assumes S: "matching_set R C S" and x: "x \<in> S"
    and y: "fst y \<notin> fst ` (S - {x})" "snd y \<notin> snd ` (S - {x})" "fst y < R" "snd y < C"
  shows "matching_set R C (insert y (S - {x}))"
    and "sum f (insert y (S - {x})) = sum f S - f x + (f y :: real)"
proof -
  have fin: "finite S" and i1: "inj_on fst S" and i2: "inj_on snd S"
    and sub: "S \<subseteq> {..<R} \<times> {..<C}" and card: "card S = min R C"
    using S by (simp_all add: matching_set_def)
  have ynew: "y \<notin> S - {x}"
    using y(1) by force
  have "fst y \<notin> fst ` (S - {x} - {y})" "snd y \<notin> snd ` (S - {x} - {y})"
    using y(1,2) by blast+
  then have "inj_on fst (insert y (S - {x}))" "inj_on snd (insert y (S - {x}))"
    using i1 i2 by (simp_all add: inj_on_insert inj_on_diff)
  moreover have "insert y (S - {x}) \<subseteq> {..<R} \<times> {..<C}"
    using sub y(3,4) by (cases y) auto
  moreover have "card (insert y (S - {x})) = min R C"
  proof -
    have "card (insert y (S - {x})) = Suc (card (S - {x}))"
      using fin ynew by simp
    also have "\<dots> = card S"
      using card_Suc_Diff1[OF fin x] .
    finally show ?thesis using card by simp
  qed
  ultimately show "matching_set R C (insert y (S - {x}))"
    using fin by (simp add: matching_set_def)
  have "sum f (insert y (S - {x})) = f y + sum f (S - {x})"
    using fin ynew by simp
  also have "sum f (S - {x}) = sum f S - f x"
    using fin x by (simp add: sum_diff1)
  finally show "sum f (insert y (S - {x})) = sum f S - f x + f y"
    by simp
qed

lemma matching_set_cross:
  assumes S: "matching_set R C S" and a: "(row, c) \<in> S" and b: "(r, col) \<in> S"
    and ne: "c \<noteq> col"
  shows "matching_set R C (insert (row, col) (insert (r, c) (S - {(row, c), (r, col)})))"
    and "sum f (insert (row, col) (insert (r, c) (S - {(row, c), (r, col)}))) =
           sum f S - f (row, c) - f (r, col) + f (row, col) + (f (r, c) :: real)"
proof -
  have fin: "finite S" and i1: "inj_on fst S" and i2: "inj_on snd S"
    and sub: "S \<subseteq> {..<R} \<times> {..<C}" and card: "card S = min R C"
    using S by (simp_all add: matching_set_def)
  have rne: "r \<noteq> row"
    using inj_onD[OF i1, of "(row, c)" "(r, col)"] a b ne by auto
  let ?T = "S - {(row, c), (r, col)}"
  have fstT: "fst p \<noteq> row \<and> fst p \<noteq> r" if "p \<in> ?T" for p
    using inj_onD[OF i1, of p "(row, c)"] inj_onD[OF i1, of p "(r, col)"] a b that by auto
  have sndT: "snd p \<noteq> c \<and> snd p \<noteq> col" if "p \<in> ?T" for p
    using inj_onD[OF i2, of p "(row, c)"] inj_onD[OF i2, of p "(r, col)"] a b that by auto
  have n1: "(r, c) \<notin> ?T" using fstT[of "(r, c)"] by auto
  have n2: "(row, col) \<notin> insert (r, c) ?T" using fstT[of "(row, col)"] rne by auto
  have iT: "inj_on fst ?T" "inj_on snd ?T"
    using i1 i2 by (auto intro: inj_on_diff)
  have "r \<notin> fst ` ?T" "row \<notin> fst ` ?T" "c \<notin> snd ` ?T" "col \<notin> snd ` ?T"
    using fstT sndT by force+
  then have "inj_on fst (insert (row, col) (insert (r, c) ?T))"
    and "inj_on snd (insert (row, col) (insert (r, c) ?T))"
    using iT rne ne by (auto simp: inj_on_insert)
  moreover have "insert (row, col) (insert (r, c) ?T) \<subseteq> {..<R} \<times> {..<C}"
    using sub a b by auto
  moreover have "card (insert (row, col) (insert (r, c) ?T)) = min R C"
  proof -
    have "card ?T = card S - 2"
      using fin a b ne by (simp add: card_Diff_insert card_Diff_singleton)
    moreover have "2 \<le> card S"
    proof -
      have "card {(row, c), (r, col)} \<le> card S"
        using fin a b by (intro card_mono) auto
      then show ?thesis using ne by simp
    qed
    moreover have "card (insert (row, col) (insert (r, c) ?T)) = Suc (Suc (card ?T))"
      using fin n1 n2 by simp
    ultimately show ?thesis using card by (simp add: min_def split: if_splits)
  qed
  ultimately show "matching_set R C (insert (row, col) (insert (r, c) ?T))"
    using fin by (simp add: matching_set_def)
  have "sum f (insert (row, col) (insert (r, c) ?T)) = f (row, col) + (f (r, c) + sum f ?T)"
    using fin n1 n2 by simp
  moreover have "sum f ?T = sum f S - sum f {(row, c), (r, col)}"
    using fin a b by (intro sum_diff) auto
  moreover have "sum f {(row, c), (r, col)} = f (row, c) + f (r, col)"
    using ne by simp
  ultimately show "sum f (insert (row, col) (insert (r, c) ?T)) =
           sum f S - f (row, c) - f (r, col) + f (row, col) + f (r, c)"
    by simp
qed

lemma optimal_no_feasible_pair:
  assumes opt: "optimal R C cm sel"
    and cl: "\<forall>r < R. \<forall>c < C. cm ! r ! c \<le> maxd \<or> cm ! r ! c = maxd + eps" and eps: "0 < eps"
    and row: "row < R" and col: "col < C"
    and feas: "cm ! row ! col \<le> maxd"
    and ru: "row \<notin> fst ` set sel \<or> (\<exists>c. (row, c) \<in> set sel \<and> cm ! row ! c > maxd)"
    and cu: "col \<notin> snd ` set sel \<or> (\<exists>r. (r, col) \<in> set sel \<and> cm ! r ! col > maxd)"
  shows False
proof -
  define S where "S = set sel"
  define f where "f = pair_cost cm"
  have MS: "matching_set R C S"
    using opt assignment_matching_set(2) unfolding S_def optimal_def by blast
  have least: "sum f S \<le> sum f S'" if "matching_set R C S'" for S'
    using optimal_matching_set[OF opt that] by (simp add: S_def f_def)
  have i1: "inj_on fst S" and i2: "inj_on snd S" and sub: "S \<subseteq> {..<R} \<times> {..<C}"
    using MS by (simp_all add: matching_set_def)
  have fval: "f (r, c) = cm ! r ! c" for r c
    by (simp add: f_def pair_cost_def)
  have frc: "f (row, col) \<le> maxd"
    using feas by (simp add: fval)
  have big: "f (r, c) = maxd + eps" if "(r, c) \<in> S" "cm ! r ! c > maxd" for r c
  proof -
    have "r < R" "c < C" using sub that(1) by auto
    then have "cm ! r ! c \<le> maxd \<or> cm ! r ! c = maxd + eps" using cl by blast
    then show ?thesis using that(2) by (simp add: fval)
  qed
  have bound: "f (r, c) \<le> maxd + eps" if "r < R" "c < C" for r c
  proof -
    have "cm ! r ! c \<le> maxd \<or> cm ! r ! c = maxd + eps" using cl that by blast
    then show ?thesis using eps by (auto simp: fval)
  qed
  consider (none) "row \<notin> fst ` S" "col \<notin> snd ` S"
    | (rowsel) c where "(row, c) \<in> S" "cm ! row ! c > maxd" "col \<notin> snd ` S"
    | (colsel) r where "row \<notin> fst ` S" "(r, col) \<in> S" "cm ! r ! col > maxd"
    | (both) c r where "(row, c) \<in> S" "cm ! row ! c > maxd" "(r, col) \<in> S" "cm ! r ! col > maxd"
    using ru cu unfolding S_def by blast
  then show False
  proof cases
    case none
    then show False using matching_set_covers[OF MS row col] by simp
  next
    case rowsel
    have 1: "fst (row, col) \<notin> fst ` (S - {(row, c)})"
      using inj_onD[OF i1, of _ "(row, c)"] rowsel(1) by fastforce
    have 2: "snd (row, col) \<notin> snd ` (S - {(row, c)})"
      using rowsel(3) by auto
    note R = matching_set_replace[OF MS rowsel(1) 1 2, simplified, OF row col]
    have "sum f S \<le> sum f S - f (row, c) + f (row, col)"
      using least[OF R(1)] R(2)[of f] by simp
    then show False
      using big[OF rowsel(1,2)] frc eps by simp
  next
    case colsel
    have 1: "fst (row, col) \<notin> fst ` (S - {(r, col)})"
      using colsel(1) by auto
    have 2: "snd (row, col) \<notin> snd ` (S - {(r, col)})"
      using inj_onD[OF i2, of _ "(r, col)"] colsel(2) by fastforce
    note R = matching_set_replace[OF MS colsel(2) 1 2, simplified, OF row col]
    have "sum f S \<le> sum f S - f (r, col) + f (row, col)"
      using least[OF R(1)] R(2)[of f] by simp
    then show False
      using big[OF colsel(2,3)] frc eps by simp
  next
    case both
    show False
    proof (cases "c = col")
      case True
      then show False using both(2) feas by simp
    next
      case False
      note X = matching_set_cross[OF MS both(1) both(3) False]
      have "r < R" "c < C" using sub both(1,3) by auto
      then have "f (r, c) \<le> maxd + eps" by (rule bound)
      moreover have "sum f S \<le> sum f S - f (row, c) - f (r, col) + f (row, col) + f (r, c)"
        using least[OF X(1)] X(2)[of f] by simp
      ultimately show False
        using big[OF both(1,2)] big[OF both(3,4)] frc eps by simp
    qed
  qed
qed

lemma injections_complete:
  "distinct ys \<Longrightarrow> set ys \<subseteq> set xs \<Longrightarrow> length ys = n \<Longrightarrow> ys \<in> set (injections n xs)"
proof (induction n arbitrary: xs ys)
  case 0
  then show ?case by simp
next
  case (Suc n)
  from Suc.prems(3) obtain y ys' where ys: "ys = y # ys'"
    by (cases ys) auto
  have "distinct ys'" "set ys' \<subseteq> set (removeAll y xs)" "length ys' = n" "y \<in> set xs"
    using Suc.prems ys by auto
  then have "ys' \<in> set (injections n (removeAll y xs))" "y \<in> set xs"
    using Suc.IH by blast+
  then show ?case
    unfolding ys by auto
qed

lemma candidates_complete:
  assumes "assignment R C sel"
  shows "\<exists>c \<in> set (candidates R C). set c = set sel"
proof -
  have d1: "distinct (map fst sel)" and d2: "distinct (map snd sel)"
    and rng: "\<forall>(row, col) \<in> set sel. row < R \<and> col < C" and len: "length sel = min R C"
    using assms by (simp_all add: assignment_def one_to_one_def list_all_iff)
  have "fst ` set sel \<subseteq> set [0..<R]"
    using rng by auto
  then obtain rows where rows: "rows \<in> set (subseqs [0..<R])" "set rows = fst ` set sel"
    using subset_subseqs[of "fst ` set sel" "[0..<R]"] by (auto simp: image_iff)
  have drows: "distinct rows"
    using subseqs_distinctD[OF rows(1)] by simp
  have lrows: "length rows = min R C"
  proof -
    have "length rows = card (fst ` set sel)"
      using drows rows(2) by (metis distinct_card)
    also have "\<dots> = length (map fst sel)"
      using d1 by (metis distinct_card set_map)
    finally show ?thesis using len by simp
  qed
  define g where "g r = the (map_of sel r)" for r
  have g: "g r = c" if "(r, c) \<in> set sel" for r c
    using that d1 by (simp add: g_def)
  define cs where "cs = map g rows"
  have zip: "zip rows cs = map (\<lambda>r. (r, g r)) rows"
    by (simp add: cs_def zip_map2 zip_same_conv_map)
  have set_zip: "set (zip rows cs) = set sel"
  proof
    show "set (zip rows cs) \<subseteq> set sel"
    proof
      fix p assume "p \<in> set (zip rows cs)"
      then obtain r where r: "r \<in> set rows" "p = (r, g r)"
        unfolding zip by auto
      then obtain c where "(r, c) \<in> set sel"
        using rows(2) by force
      then show "p \<in> set sel" using g r(2) by simp
    qed
    show "set sel \<subseteq> set (zip rows cs)"
    proof
      fix p assume p: "p \<in> set sel"
      obtain r c where rc: "p = (r, c)" by (cases p)
      have "r \<in> set rows" using rows(2) p rc by force
      moreover have "g r = c" using g p rc by simp
      ultimately show "p \<in> set (zip rows cs)"
        unfolding zip rc by force
    qed
  qed
  have "inj_on g (set rows)"
  proof (rule inj_onI)
    fix r1 r2 assume a: "r1 \<in> set rows" "r2 \<in> set rows" "g r1 = g r2"
    then obtain c1 c2 where "(r1, c1) \<in> set sel" "(r2, c2) \<in> set sel"
      using rows(2) by force
    then have in1: "(r1, g r1) \<in> set sel" and in2: "(r2, g r2) \<in> set sel"
      using g by auto
    have "inj_on snd (set sel)" using d2 by (simp add: distinct_map)
    from inj_onD[OF this _ in1 in2] a(3) show "r1 = r2" by simp
  qed
  then have dcs: "distinct cs"
    using drows by (simp add: cs_def distinct_map)
  have "set cs \<subseteq> set [0..<C]"
  proof
    fix c assume "c \<in> set cs"
    then obtain r where "r \<in> set rows" "c = g r" by (auto simp: cs_def)
    then obtain c' where "(r, c') \<in> set sel" using rows(2) by force
    then show "c \<in> set [0..<C]" using rng g \<open>c = g r\<close> by auto
  qed
  then have "cs \<in> set (injections (length rows) [0..<C])"
    using dcs by (intro injections_complete) (simp_all add: cs_def)
  then have "zip rows cs \<in> set (candidates R C)"
    using rows(1) lrows unfolding candidates_def by auto
  then show ?thesis using set_zip by blast
qed

lemma identity_assignment: "assignment R C (zip [0..<min R C] [0..<min R C])"
  by (auto simp: assignment_def one_to_one_def list_all_iff zip_same)

lemma candidates_nonempty: "candidates R C \<noteq> []"
  using candidates_complete[OF identity_assignment, of R C] by auto

lemma ncols_rectangular: "rectangular R C cm \<Longrightarrow> 0 < R \<Longrightarrow> ncols cm = C"
  by (cases cm) (auto simp: rectangular_def ncols_def)

lemma linear_sum_assignment_optimal:
  assumes "rectangular R C cm" and "0 < R"
  shows "optimal R C cm (linear_sum_assignment cm)"
proof -
  have shape: "length cm = R" "ncols cm = C"
    using assms ncols_rectangular[OF assms] by (simp_all add: rectangular_def)
  let ?cands = "candidates R C"
  have ne: "?cands \<noteq> []" by (rule candidates_nonempty)
  then obtain c cs where eq: "?cands = c # cs"
    by (cases ?cands) auto
  have lsa: "linear_sum_assignment cm = arg_min_list (total_cost cm) ?cands"
    by (simp add: linear_sum_assignment_def shape eq)
  have mem: "linear_sum_assignment cm \<in> set ?cands"
    unfolding lsa by (rule arg_min_list_in[OF ne])
  then have a: "assignment R C (linear_sum_assignment cm)"
    by (rule candidates_sound)
  have "total_cost cm (linear_sum_assignment cm) \<le> total_cost cm sel'"
    if "assignment R C sel'" for sel'
  proof -
    from candidates_complete[OF that] obtain c' where
      c': "c' \<in> set ?cands" "set c' = set sel'" by blast
    have "total_cost cm c' = total_cost cm sel'"
      using assignment_matching_set(3)[OF candidates_sound[OF c'(1)], of cm]
        assignment_matching_set(3)[OF that, of cm] c'(2) by simp
    moreover have "total_cost cm (linear_sum_assignment cm) = Min (total_cost cm ` set ?cands)"
      unfolding lsa by (rule f_arg_min_list_f[OF ne])
    moreover have "Min (total_cost cm ` set ?cands) \<le> total_cost cm c'"
      using c'(1) by simp
    ultimately show ?thesis by simp
  qed
  then show ?thesis
    using a by (simp add: optimal_def)
qed

lemma not_selected_nth:
  assumes "distinct xs" and "row < length xs" and "xs ! row \<in> set (not_selected ps xs)"
  shows "row \<notin> set ps"
proof -
  from assms(3) obtain p where p: "p < length xs" "p \<notin> set ps" "xs ! p = xs ! row"
    by (auto simp: not_selected_eq)
  then have "p = row"
    using assms(1,2) by (simp add: nth_eq_iff_index_eq)
  then show ?thesis using p(2) by simp
qed

lemma rectangular_nth:
  "rectangular R C cm \<Longrightarrow> r < R \<Longrightarrow> r < length cm \<and> length (cm ! r) = C"
  by (auto simp: rectangular_def list_all_length)

text \<open>
  C2 (as amended). For subsets without repeated indices, a cost matrix of the subsets'
  shape and a solver whose selection on the clamped matrix is a minimum-cost one-to-one
  assignment of \<open>min R C\<close> pairs: a track and a detection that are both returned unmatched
  have a cost above \<open>max_distance\<close>. So a partner of an unmatched index with cost at most
  \<open>max_distance\<close> is always matched to another index.
\<close>

theorem min_cost_matching_unmatched_pairs:
  assumes "min_cost_matching solver distance_metric max_distance trks dets
             (Some (PyList ts)) (Some (PyList ds)) = Inr (matches, unmatched_tracks, unmatched_detections)"
    and "distance_metric trks dets (PyList ts) (PyList ds) = Inr cost_matrix"
    and "rectangular (length ts) (length ds) cost_matrix"
    and "optimal (length ts) (length ds) (clamp max_distance cost_matrix)
           (solver (clamp max_distance cost_matrix))"
    and "distinct ts" and "distinct ds"
  shows "\<forall>row < length ts. \<forall>col < length ds.
           ts ! row \<in> set (elems unmatched_tracks) \<and> ds ! col \<in> set (elems unmatched_detections) \<longrightarrow>
           cost_matrix ! row ! col > max_distance"
proof (intro allI impI, elim conjE)
  fix row col
  assume row: "row < length ts" and col: "col < length ds"
    and tu: "ts ! row \<in> set (elems unmatched_tracks)"
    and du: "ds ! col \<in> set (elems unmatched_detections)"
  let ?cm = "clamp max_distance cost_matrix"
  let ?sel = "solver ?cm"
  have ne: "ts \<noteq> []" "ds \<noteq> []" using row col by auto
  then have n: "nothing_to_match (arange_default trks (Some (PyList ts)))
                  (arange_default dets (Some (PyList ds))) = Inr False"
    by (simp add: arange_default_def)
  from assms(1) have
    rng: "in_range ?cm ts ds ?sel" and
    res: "matcher_result max_distance ?cm ts ds ?sel
            = (matches, unmatched_tracks, unmatched_detections)"
    unfolding min_cost_matching_solve[OF n] using assms(2) by (auto simp: arange_default_def)
  have ut: "elems unmatched_tracks = not_selected (map fst ?sel) ts @
              map (\<lambda>(r, c). ts ! r) (rejected max_distance ?cm ?sel)"
    and ud: "elems unmatched_detections = not_selected (map snd ?sel) ds @
              map (\<lambda>(r, c). ds ! c) (rejected max_distance ?cm ?sel)"
    using res by (auto simp: matcher_result_def)
  have ru: "row \<notin> fst ` set ?sel \<or> (\<exists>c. (row, c) \<in> set ?sel \<and> ?cm ! row ! c > max_distance)"
  proof (cases "ts ! row \<in> set (not_selected (map fst ?sel) ts)")
    case True
    then show ?thesis using not_selected_nth[OF assms(5) row] by force
  next
    case False
    then obtain r c where rc: "(r, c) \<in> set ?sel" "?cm ! r ! c > max_distance" "ts ! r = ts ! row"
      using tu unfolding ut by (auto simp: rejected_def)
    have "r < length ts" using rng rc(1) by (auto simp: in_range_def list_all_iff)
    then have "r = row" using rc(3) assms(5) row by (simp add: nth_eq_iff_index_eq)
    then show ?thesis using rc by blast
  qed
  have cu: "col \<notin> snd ` set ?sel \<or> (\<exists>r. (r, col) \<in> set ?sel \<and> ?cm ! r ! col > max_distance)"
  proof (cases "ds ! col \<in> set (not_selected (map snd ?sel) ds)")
    case True
    then show ?thesis using not_selected_nth[OF assms(6) col] by force
  next
    case False
    then obtain r c where rc: "(r, c) \<in> set ?sel" "?cm ! r ! c > max_distance" "ds ! c = ds ! col"
      using du unfolding ud by (auto simp: rejected_def)
    have "c < length ds" using rng rc(1) by (auto simp: in_range_def list_all_iff)
    then have "c = col" using rc(3) assms(6) col by (simp add: nth_eq_iff_index_eq)
    then show ?thesis using rc by blast
  qed
  have cl: "\<forall>r < length ts. \<forall>c < length ds.
              ?cm ! r ! c \<le> max_distance \<or> ?cm ! r ! c = max_distance + 1 / 100000"
  proof (intro allI impI)
    fix r c assume "r < length ts" "c < length ds"
    then have "r < length cost_matrix" "c < length (cost_matrix ! r)"
      using rectangular_nth[OF assms(3)] by auto
    then show "?cm ! r ! c \<le> max_distance \<or> ?cm ! r ! c = max_distance + 1 / 100000"
      by (simp add: clamp_entry)
  qed
  show "cost_matrix ! row ! col > max_distance"
  proof (rule ccontr)
    assume "\<not> cost_matrix ! row ! col > max_distance"
    moreover have "row < length cost_matrix" "col < length (cost_matrix ! row)"
      using rectangular_nth[OF assms(3) row] col by auto
    ultimately have "?cm ! row ! col \<le> max_distance"
      by (simp add: clamp_entry)
    then show False
      using optimal_no_feasible_pair[OF assms(4) cl _ row col _ ru cu] by simp
  qed
qed

theorem min_cost_matching_unmatched_pairs_witness:
  "min_cost_matching linear_sum_assignment (\<lambda>_ _ _ _. Inr [[0, 6 / 10], [6 / 10, 2]]) (7 / 10)
       [] [] (Some (PyList [4, 7])) (Some (PyList [2, 5])) = Inr ([(4, 2)], PyList [7], PyList [5]) \<and>
   rectangular (length [4 :: nat, 7]) (length [2 :: nat, 5]) [[0, 6 / 10], [6 / 10, 2]] \<and>
   optimal (length [4 :: nat, 7]) (length [2 :: nat, 5]) (clamp (7 / 10) [[0, 6 / 10], [6 / 10, 2]])
     (linear_sum_assignment (clamp (7 / 10) [[0, 6 / 10], [6 / 10, 2]])) \<and>
   [[0, 6 / 10], [6 / 10, 2 :: real]] ! 1 ! 1 > 7 / 10"
proof -
  have ret: "min_cost_matching linear_sum_assignment (\<lambda>_ _ _ _. Inr [[0, 6 / 10], [6 / 10, 2]])
       (7 / 10) [] [] (Some (PyList [4, 7])) (Some (PyList [2, 5]))
       = Inr ([(4, 2)], PyList [7], PyList [5])"
    by code_simp
  have rect: "rectangular (length [4 :: nat, 7]) (length [2 :: nat, 5]) [[0, 6 / 10], [6 / 10, 2]]"
    by (simp add: rectangular_def)
  have "rectangular (length [4 :: nat, 7]) (length [2 :: nat, 5])
          (clamp (7 / 10) [[0, 6 / 10], [6 / 10, 2]])"
    by (simp add: rectangular_def clamp_def)
  then have opt: "optimal (length [4 :: nat, 7]) (length [2 :: nat, 5])
     (clamp (7 / 10) [[0, 6 / 10], [6 / 10, 2]])
     (linear_sum_assignment (clamp (7 / 10) [[0, 6 / 10], [6 / 10, 2]]))"
    by (rule linear_sum_assignment_optimal) simp
  have "[[0, 6 / 10], [6 / 10, 2 :: real]] ! 1 ! 1 > 7 / 10"
    using min_cost_matching_unmatched_pairs[OF ret refl rect opt, rule_format, of 1 1]
    by simp
  then show ?thesis
    using ret rect opt by blast
qed

text \<open>
  C2 (as stated) fails when two tracks compete for one detection: both are within
  \<open>max_distance\<close> of it, the solver pairs one of them with it, and the other is returned
  unmatched although its only partner does not exceed \<open>max_distance\<close>.
\<close>

theorem min_cost_matching_unmatched_counterexample:
  "min_cost_matching linear_sum_assignment (\<lambda>_ _ _ _. Inr [[1 / 10], [1 / 10]]) (7 / 10)
       [] [] (Some (PyList [4, 7])) (Some (PyList [2])) = Inr ([(4, 2)], PyList [7], PyList []) \<and>
   \<not> only_infeasible_partners (7 / 10) [[1 / 10], [1 / 10]] [4, 7] [2]
        (elems (PyList [7])) (elems (PyList []))"
proof
  show "min_cost_matching linear_sum_assignment (\<lambda>_ _ _ _. Inr [[1 / 10], [1 / 10]]) (7 / 10)
       [] [] (Some (PyList [4, 7])) (Some (PyList [2])) = Inr ([(4, 2)], PyList [7], PyList [])"
    by code_simp
  show "\<not> only_infeasible_partners (7 / 10) [[1 / 10], [1 / 10]] [4, 7] [2]
        (elems (PyList [7])) (elems (PyList []))"
  proof
    assume "only_infeasible_partners (7 / 10) [[1 / 10], [1 / 10]] [4, 7] [2]
        (elems (PyList [7])) (elems (PyList []))"
    then have "\<forall>row < length [4 :: nat, 7]. [4, 7] ! row \<in> set (elems (PyList [7])) \<longrightarrow>
        (\<forall>col < length [2 :: nat]. [[1 / 10], [1 / 10 :: real]] ! row ! col > 7 / 10)"
      unfolding only_infeasible_partners_def by blast
    from this[rule_format, of 1 0] show False by simp
  qed
qed


subsection \<open>The Matcher and the cascade return\<close>

text \<open>
  On index subsets given as lists, with a metric that returns a cost matrix of the shape of
  the two subsets and a solver that answers with an assignment, neither the Matcher nor the
  level loop raises.
\<close>

lemma rectangular_clamp: "rectangular R C cm \<Longrightarrow> rectangular R C (clamp maxd cm)"
  by (simp add: rectangular_def clamp_def list_all_iff)

lemma min_cost_matching_returns:
  assumes dm: "dm trks dets (PyList ts) (PyList ds) = Inr cm0"
    and rect: "rectangular (length ts) (length ds) cm0"
    and sel: "assignment (length ts) (length ds) (solver (clamp maxd cm0))"
  shows "\<exists>matches ut ud.
           min_cost_matching solver dm maxd trks dets (Some (PyList ts)) (Some (PyList ds))
             = Inr (matches, PyList ut, PyList ud)"
proof (cases "ts = [] \<or> ds = []")
  case True
  then show ?thesis
    using min_cost_matching_lists_early[OF True] by blast
next
  case False
  then have n: "nothing_to_match (arange_default trks (Some (PyList ts)))
                  (arange_default dets (Some (PyList ds))) = Inr False"
    by (simp add: arange_default_def)
  have "in_range (clamp maxd cm0) ts ds (solver (clamp maxd cm0))"
    unfolding in_range_def list_all_iff
  proof (clarify)
    fix row col assume "(row, col) \<in> set (solver (clamp maxd cm0))"
    then have "row < length ts" "col < length ds"
      using sel by (auto simp: assignment_def list_all_iff)
    then show "row < length ts \<and> col < length ds \<and> row < length (clamp maxd cm0) \<and>
               col < length (clamp maxd cm0 ! row)"
      using rectangular_nth[OF rectangular_clamp[OF rect], of row maxd] by simp
  qed
  then show ?thesis
    unfolding min_cost_matching_solve[OF n] using dm
    by (simp add: arange_default_def matcher_result_def)
qed

lemma cascade_levels_returns:
  assumes rng: "\<forall>k \<in> set (elems ti). k < length trks"
    and dm: "\<forall>ts ds. \<exists>cm0. dm trks dets (PyList ts) (PyList ds) = Inr cm0 \<and>
                        rectangular (length ts) (length ds) cm0"
    and sol: "\<forall>R C cm. rectangular R C cm \<longrightarrow> assignment R C (solver cm)"
  shows "\<exists>m ud tr. cascade_levels solver dm maxd trks dets ti levels (m0, PyList p0, tr0)
                      = Inr (m, PyList ud, tr)"
proof (induction levels arbitrary: m0 p0 tr0)
  case Nil
  show ?case by simp
next
  case (Cons level levels)
  define tsl where "tsl = filter (\<lambda>k. time_since_update (trks ! k) = 1 + level) (elems ti)"
  have sel: "select_tracks trks (\<lambda>t. time_since_update t = 1 + level) (elems ti) = Inr tsl"
    using rng by (simp add: select_tracks_Inr_iff tsl_def)
  show ?case
  proof (cases "p0 = []")
    case True
    then show ?thesis by simp
  next
    case False
    show ?thesis
    proof (cases "tsl = []")
      case True
      then show ?thesis
        using False sel Cons.IH[of m0 p0 "tr0 @ [Skipped level]"] by simp
    next
      case ne: False
      obtain cm0 where cm0: "dm trks dets (PyList tsl) (PyList p0) = Inr cm0"
        "rectangular (length tsl) (length p0) cm0"
        using dm by blast
      have "assignment (length tsl) (length p0) (solver (clamp maxd cm0))"
        using sol rectangular_clamp[OF cm0(2)] by blast
      with cm0 min_cost_matching_returns[of dm trks dets tsl p0 cm0 solver maxd]
      obtain ml ut ud where
        mcm: "min_cost_matching solver dm maxd trks dets (Some (PyList tsl)) (Some (PyList p0))
                = Inr (ml, PyList ut, PyList ud)"
        by blast
      show ?thesis
        using False sel ne mcm
          Cons.IH[of "m0 @ ml" ud "tr0 @ [Ran level tsl (PyList p0) ml (PyList ud)]"]
        by simp
    qed
  qed
qed

lemma matching_cascade_returns:
  assumes "\<forall>k \<in> set (elems (range_default trks tio)). k < length trks"
    and "range_default dets dio = PyList ds"
    and "\<forall>ts ds. \<exists>cm0. dm trks dets (PyList ts) (PyList ds) = Inr cm0 \<and>
                        rectangular (length ts) (length ds) cm0"
    and "\<forall>R C cm. rectangular R C cm \<longrightarrow> assignment R C (solver cm)"
  shows "\<exists>matches ut ud. matching_cascade solver dm maxd depth trks dets tio dio
                            = Inr (matches, ut, PyList ud)"
proof -
  from assms(1,3,4)
    cascade_levels_returns[of "range_default trks tio" trks dm dets solver maxd
      "[0..<depth]" "[]" ds "[]"]
  obtain m ud tr where
    "cascade_levels solver dm maxd trks dets (range_default trks tio) [0..<depth]
       ([], PyList ds, []) = Inr (m, PyList ud, tr)"
    by blast
  then show ?thesis
    by (simp add: matching_cascade_def cascade_run_def assms(2))
qed

end
